theory Spec2Isabelle
  imports Complex_Main "HOL-Library.Multiset"
begin

section \<open>JavaScript values read by the timeline engine\<close>

text \<open>
  A JavaScript number is modelled as an exact real, or one of the three special values
  the code can meet: \<open>+Infinity\<close>, \<open>-Infinity\<close> and \<open>NaN\<close>. Rounding of
  IEEE doubles is not modelled; comparisons and the special values are.
\<close>

datatype jsnum = Fin real | PInf | NInf | NaN

text \<open>\<open>a + b\<close> on numbers.\<close>

fun jadd :: "jsnum \<Rightarrow> jsnum \<Rightarrow> jsnum" where
  "jadd NaN _ = NaN"
| "jadd _ NaN = NaN"
| "jadd (Fin a) (Fin b) = Fin (a + b)"
| "jadd PInf NInf = NaN"
| "jadd NInf PInf = NaN"
| "jadd PInf _ = PInf"
| "jadd _ PInf = PInf"
| "jadd NInf _ = NInf"
| "jadd _ NInf = NInf"

text \<open>Unary minus and \<open>a - b\<close>.\<close>

fun jneg :: "jsnum \<Rightarrow> jsnum" where
  "jneg (Fin a) = Fin (- a)"
| "jneg PInf = NInf"
| "jneg NInf = PInf"
| "jneg NaN = NaN"

definition jsub :: "jsnum \<Rightarrow> jsnum \<Rightarrow> jsnum" where
  "jsub a b = jadd a (jneg b)"

text \<open>\<open>a < b\<close> and \<open>a <= b\<close>; every comparison with \<open>NaN\<close> is false.\<close>

fun jlt :: "jsnum \<Rightarrow> jsnum \<Rightarrow> bool" where
  "jlt NaN _ = False"
| "jlt _ NaN = False"
| "jlt (Fin a) (Fin b) = (a < b)"
| "jlt _ NInf = False"
| "jlt PInf _ = False"
| "jlt NInf _ = True"
| "jlt _ PInf = True"

fun jle :: "jsnum \<Rightarrow> jsnum \<Rightarrow> bool" where
  "jle NaN _ = False"
| "jle _ NaN = False"
| "jle (Fin a) (Fin b) = (a \<le> b)"
| "jle NInf _ = True"
| "jle _ PInf = True"
| "jle _ NInf = False"
| "jle PInf _ = False"

text \<open>\<open>a > b\<close> and \<open>a >= b\<close>.\<close>

definition jgt :: "jsnum \<Rightarrow> jsnum \<Rightarrow> bool" where
  "jgt a b = jlt b a"

definition jge :: "jsnum \<Rightarrow> jsnum \<Rightarrow> bool" where
  "jge a b = jle b a"

text \<open>\<open>Math.max(a, b)\<close>: \<open>NaN\<close> if either argument is \<open>NaN\<close>.\<close>

fun jmax :: "jsnum \<Rightarrow> jsnum \<Rightarrow> jsnum" where
  "jmax NaN _ = NaN"
| "jmax _ NaN = NaN"
| "jmax a b = (if jle a b then b else a)"

text \<open>\<open>isFinite(x)\<close> on a number.\<close>

fun isFinite :: "jsnum \<Rightarrow> bool" where
  "isFinite (Fin _) = True"
| "isFinite _ = False"

section \<open>The schedule\<close>

text \<open>
  A sub-event of a scene (an entry of \<open>scene.text\<close> or \<open>scene.callouts\<close>). Only the
  offset \<open>at\<close> takes part in scheduling; \<open>None\<close> is an absent (\<open>undefined\<close> or
  \<open>null\<close>) offset, which the code reads as 0 (\<open>block.at ?? 0\<close>).
\<close>

record sub_event =
  ev_html :: string
  ev_at :: "jsnum option"

text \<open>
  A scene of the manifest the core holds after \<open>#normalizeManifest\<close>: \<open>t\<close> and
  \<open>d\<close> are numbers there. \<open>text\<close> and \<open>callouts\<close> are the empty list when the
  field is not an array.
\<close>

record scene =
  sc_t :: jsnum
  sc_d :: jsnum
  sc_text :: "sub_event list"
  sc_callouts :: "sub_event list"

section \<open>Active scene lookup\<close>

text \<open>The test of \<open>#findSceneIndexAt\<close>: \<open>t >= s.t && t < s.t + s.d\<close>.\<close>

definition active_at :: "scene \<Rightarrow> jsnum \<Rightarrow> bool" where
  "active_at s t = (jge t (sc_t s) \<and> jlt t (jadd (sc_t s) (sc_d s)))"

text \<open>The \<open>for\<close> loop of \<open>#findSceneIndexAt\<close>, from index \<open>i\<close> on.\<close>

function findSceneIndexAt_from :: "scene list \<Rightarrow> jsnum \<Rightarrow> nat \<Rightarrow> int" where
  "findSceneIndexAt_from arr t i =
     (if i < length arr
      then (if active_at (arr ! i) t then int i
            else findSceneIndexAt_from arr t (Suc i))
      else - 1)"
  by pat_completeness auto
termination
  by (relation "measure (\<lambda>(arr, t, i). length arr - i)") auto

declare findSceneIndexAt_from.simps [simp del]

definition findSceneIndexAt :: "scene list \<Rightarrow> jsnum \<Rightarrow> int" where
  "findSceneIndexAt arr t = findSceneIndexAt_from arr t 0"

section \<open>Properties of the active scene lookup\<close>

lemma findSceneIndexAt_from_none:
  "(findSceneIndexAt_from arr t i = - 1) = (\<forall>j. i \<le> j \<and> j < length arr \<longrightarrow> \<not> active_at (arr ! j) t)"
proof (induction arr t i rule: findSceneIndexAt_from.induct)
  case (1 arr t i)
  show ?case
  proof (cases "i < length arr")
    case False
    then show ?thesis by (auto simp: findSceneIndexAt_from.simps [of arr t i])
  next
    case inb: True
    show ?thesis
    proof (cases "active_at (arr ! i) t")
      case True
      with inb show ?thesis
        by (auto simp: findSceneIndexAt_from.simps [of arr t i])
    next
      case False
      have "(\<forall>j. Suc i \<le> j \<and> j < length arr \<longrightarrow> \<not> active_at (arr ! j) t)
            = (\<forall>j. i \<le> j \<and> j < length arr \<longrightarrow> \<not> active_at (arr ! j) t)"
        using False by (metis Suc_leD Suc_leI le_neq_implies_less)
      with 1 inb False show ?thesis
        by (simp add: findSceneIndexAt_from.simps [of arr t i])
    qed
  qed
qed

lemma findSceneIndexAt_from_some:
  "(findSceneIndexAt_from arr t i = int k) =
     (i \<le> k \<and> k < length arr \<and> active_at (arr ! k) t
      \<and> (\<forall>j. i \<le> j \<and> j < k \<longrightarrow> \<not> active_at (arr ! j) t))"
proof (induction arr t i rule: findSceneIndexAt_from.induct)
  case (1 arr t i)
  show ?case
  proof (cases "i < length arr")
    case False
    then show ?thesis by (auto simp: findSceneIndexAt_from.simps [of arr t i])
  next
    case inb: True
    show ?thesis
    proof (cases "active_at (arr ! i) t")
      case True
      with inb show ?thesis
        by (auto simp: findSceneIndexAt_from.simps [of arr t i] intro: le_neq_implies_less)
    next
      case False
      have "findSceneIndexAt_from arr t i = findSceneIndexAt_from arr t (Suc i)"
        using inb False by (simp add: findSceneIndexAt_from.simps [of arr t i])
      moreover have "(Suc i \<le> k \<and> k < length arr \<and> active_at (arr ! k) t
          \<and> (\<forall>j. Suc i \<le> j \<and> j < k \<longrightarrow> \<not> active_at (arr ! j) t))
        = (i \<le> k \<and> k < length arr \<and> active_at (arr ! k) t
          \<and> (\<forall>j. i \<le> j \<and> j < k \<longrightarrow> \<not> active_at (arr ! j) t))"
        using False by (metis Suc_leD Suc_leI le_neq_implies_less)
      ultimately show ?thesis using 1 inb False by simp
    qed
  qed
qed

text \<open>
  Two overlapping scenes, \<open>[0, 4)\<close> and \<open>[2, 6)\<close>, followed by a gap and a third
  scene \<open>[8, 9)\<close>.
\<close>

definition overlap_scenes :: "scene list" where
  "overlap_scenes =
     [\<lparr>sc_t = Fin 0, sc_d = Fin 4, sc_text = [], sc_callouts = []\<rparr>,
      \<lparr>sc_t = Fin 2, sc_d = Fin 4, sc_text = [], sc_callouts = []\<rparr>,
      \<lparr>sc_t = Fin 8, sc_d = Fin 1, sc_text = [], sc_callouts = []\<rparr>]"

text \<open>
  C4. For every schedule and every time \<open>t\<close>, \<open>#findSceneIndexAt\<close> returns the lowest
  index whose scene satisfies \<open>s.t \<le> t < s.t + s.d\<close> (so the first match in sequence
  order wins when intervals overlap), and returns \<open>-1\<close> exactly when no scene's
  half-open interval contains \<open>t\<close>; it returns nothing else.
\<close>

theorem findSceneIndexAt_lowest_match:
  "(findSceneIndexAt arr t = - 1 \<longleftrightarrow> (\<forall>i<length arr. \<not> active_at (arr ! i) t))
   \<and> (\<forall>k. findSceneIndexAt arr t = int k \<longleftrightarrow>
          (k < length arr \<and> active_at (arr ! k) t \<and> (\<forall>j<k. \<not> active_at (arr ! j) t)))
   \<and> (findSceneIndexAt arr t = - 1 \<or> (\<exists>k<length arr. findSceneIndexAt arr t = int k))"
proof (intro conjI allI)
  show none: "findSceneIndexAt arr t = - 1 \<longleftrightarrow> (\<forall>i<length arr. \<not> active_at (arr ! i) t)"
    by (simp add: findSceneIndexAt_def findSceneIndexAt_from_none)
  show some: "findSceneIndexAt arr t = int k \<longleftrightarrow>
      (k < length arr \<and> active_at (arr ! k) t \<and> (\<forall>j<k. \<not> active_at (arr ! j) t))" for k
    by (simp add: findSceneIndexAt_def findSceneIndexAt_from_some)
  show "findSceneIndexAt arr t = - 1 \<or> (\<exists>k<length arr. findSceneIndexAt arr t = int k)"
  proof (cases "\<forall>i<length arr. \<not> active_at (arr ! i) t")
    case True
    then show ?thesis using none by simp
  next
    case False
    define k where "k = (LEAST i. i < length arr \<and> active_at (arr ! i) t)"
    from False have ex: "\<exists>i. i < length arr \<and> active_at (arr ! i) t" by blast
    have k: "k < length arr \<and> active_at (arr ! k) t"
      unfolding k_def using ex by (rule LeastI_ex)
    have "\<not> active_at (arr ! j) t" if "j < k" for j
    proof
      assume "active_at (arr ! j) t"
      with that k have "j < length arr \<and> active_at (arr ! j) t" by simp
      then have "k \<le> j" unfolding k_def by (rule Least_le)
      with that show False by simp
    qed
    with k some [of k] show ?thesis by blast
  qed
qed

theorem findSceneIndexAt_lowest_match_witness:
  "findSceneIndexAt overlap_scenes (Fin 3) = 0
   \<and> active_at (overlap_scenes ! 0) (Fin 3) \<and> active_at (overlap_scenes ! 1) (Fin 3)
   \<and> findSceneIndexAt overlap_scenes (Fin 5) = 1
   \<and> findSceneIndexAt overlap_scenes (Fin 7) = - 1
   \<and> findSceneIndexAt overlap_scenes (Fin (- 1)) = - 1
   \<and> findSceneIndexAt overlap_scenes (Fin 9) = - 1"
proof -
  have a0: "active_at (overlap_scenes ! 0) (Fin 3)"
    and a1: "active_at (overlap_scenes ! 1) (Fin 3)"
    by (simp_all add: overlap_scenes_def active_at_def jge_def)
  have len: "length overlap_scenes = 3"
    by (simp add: overlap_scenes_def)
  note at_k = findSceneIndexAt_lowest_match [THEN conjunct2, THEN conjunct1, THEN spec]
  have r3: "findSceneIndexAt overlap_scenes (Fin 3) = 0"
    using at_k [of overlap_scenes "Fin 3" 0] a0 len by simp
  have b: "active_at (overlap_scenes ! 1) (Fin 5)"
    and b': "\<not> active_at (overlap_scenes ! 0) (Fin 5)"
    by (simp_all add: overlap_scenes_def active_at_def jge_def)
  have r5: "findSceneIndexAt overlap_scenes (Fin 5) = 1"
    using at_k [of overlap_scenes "Fin 5" 1] b b' len by simp
  have none: "\<forall>i<length overlap_scenes. \<not> active_at (overlap_scenes ! i) x"
    if "x = Fin 7 \<or> x = Fin (- 1) \<or> x = Fin 9" for x
    using that by (auto simp: overlap_scenes_def active_at_def jge_def less_Suc_eq nth_Cons')
  have r7: "findSceneIndexAt overlap_scenes (Fin 7) = - 1"
    using findSceneIndexAt_lowest_match [of overlap_scenes "Fin 7"] none [of "Fin 7"] by simp
  have rm: "findSceneIndexAt overlap_scenes (Fin (- 1)) = - 1"
    using findSceneIndexAt_lowest_match [of overlap_scenes "Fin (- 1)"] none [of "Fin (- 1)"] by simp
  have r9: "findSceneIndexAt overlap_scenes (Fin 9) = - 1"
    using findSceneIndexAt_lowest_match [of overlap_scenes "Fin 9"] none [of "Fin 9"] by simp
  from a0 a1 r3 r5 r7 rm r9 show ?thesis by simp
qed

section \<open>Raw manifests and the two normalizers\<close>

text \<open>
  A value of a manifest field whose type the code inspects. \<open>JObj\<close> stands for any
  array or object.
\<close>

datatype jsval = JUndefined | JNull | JBool bool | JNum jsnum | JStr string | JObj

text \<open>Truthiness, as \<open>x || y\<close> and \<open>!x\<close> test it.\<close>

fun truthy :: "jsval \<Rightarrow> bool" where
  "truthy JUndefined = False"
| "truthy JNull = False"
| "truthy (JBool b) = b"
| "truthy (JNum n) = (n \<noteq> Fin 0 \<and> n \<noteq> NaN)"
| "truthy (JStr s) = (s \<noteq> [])"
| "truthy JObj = True"

text \<open>
  \<open>Number(x)\<close>. The conversion of strings and objects is the language's own parser
  and is taken as the parameter \<open>ext\<close>.
\<close>

fun ToNumber :: "(jsval \<Rightarrow> jsnum) \<Rightarrow> jsval \<Rightarrow> jsnum" where
  "ToNumber ext JUndefined = NaN"
| "ToNumber ext JNull = Fin 0"
| "ToNumber ext (JBool b) = Fin (if b then 1 else 0)"
| "ToNumber ext (JNum n) = n"
| "ToNumber ext v = ext v"

text \<open>
  A scene as the manifest gives it: \<open>t\<close> and \<open>d\<close> are any value, \<open>rs_src\<close> is
  the value of \<open>media.src\<close> (\<open>undefined\<close> without a \<open>media\<close> object). The fields the
  normalizers only copy or default (credit, Ken Burns preset, transitions) are left out.
\<close>

record raw_scene =
  rs_t :: jsval
  rs_d :: jsval
  rs_src :: jsval
  rs_text :: "sub_event list"
  rs_callouts :: "sub_event list"

text \<open>
  A manifest object. Its scene objects are kept in a table, \<open>rm_objects\<close>, and the
  array \<open>scenes\<close> holds references to them (positions in the table), so that an
  object listed twice in \<open>scenes\<close> is one object, as it is for the code. A reference
  outside the table stands for an element that is \<open>undefined\<close>. \<open>rm_scenes = None\<close>
  is a \<open>scenes\<close> field that is missing or not an array.
\<close>

record raw_manifest =
  rm_objects :: "raw_scene list"
  rm_scenes :: "nat list option"
  rm_theme :: string
  rm_duration :: jsval

datatype error =
    MountRequired
  | ScenesRequired
  | MissingPositiveDuration nat
  | RequiresPositiveDuration nat
  | ManifestMissingScenes
  | TypeError
  | DataCloneError
  | SceneRequiresPositiveDuration

text \<open>The element of \<open>scenes\<close> a reference stands for.\<close>

definition scene_ref :: "raw_scene list \<Rightarrow> nat \<Rightarrow> raw_scene option" where
  "scene_ref objs a = (if a < length objs then Some (objs ! a) else None)"

subsection \<open>The core: \<open>ZdkCore.#normalizeManifest\<close>\<close>

text \<open>\<open>typeof x === "number"\<close>.\<close>

fun is_number :: "jsval \<Rightarrow> bool" where
  "is_number (JNum _) = True"
| "is_number _ = False"

text \<open>
  \<open>m.scenes.forEach((s, i) => ...)\<close> with the running \<open>cursor\<close>, on the table of the
  clone (\<open>structuredClone\<close> copies the objects with their sharing, so the clone has
  the same table and the same references). Reading \<open>s.d\<close> of \<open>undefined\<close> is a
  \<open>TypeError\<close>; a scene whose \<open>d\<close> is not a number or is \<open>\<le> 0\<close> throws; a \<open>t\<close>
  that is not a number is set to the cursor, in the object; the cursor moves to
  \<open>s.t + s.d\<close>. The result is the table after the loop.
\<close>

fun core_scenes :: "raw_scene list \<Rightarrow> jsnum \<Rightarrow> nat \<Rightarrow> nat list \<Rightarrow> error + raw_scene list" where
  "core_scenes objs cursor i [] = Inr objs"
| "core_scenes objs cursor i (a # rest) =
     (case scene_ref objs a of
        None \<Rightarrow> Inl TypeError
      | Some s \<Rightarrow>
          (case rs_d s of
             JNum dd \<Rightarrow>
               if jle dd (Fin 0) then Inl (MissingPositiveDuration i)
               else (case rs_t s of
                       JNum tt \<Rightarrow> core_scenes objs (jadd tt dd) (Suc i) rest
                     | _ \<Rightarrow>
                         core_scenes (objs[a := s\<lparr>rs_t := JNum cursor\<rparr>])
                           (jadd cursor dd) (Suc i) rest)
           | _ \<Rightarrow> Inl (MissingPositiveDuration i)))"

text \<open>
  A scene object as the core reads it after the loop, when \<open>t\<close> and \<open>d\<close> are
  numbers.
\<close>

definition as_scene :: "raw_scene \<Rightarrow> scene" where
  "as_scene s =
     \<lparr>sc_t = (case rs_t s of JNum x \<Rightarrow> x | _ \<Rightarrow> NaN),
      sc_d = (case rs_d s of JNum x \<Rightarrow> x | _ \<Rightarrow> NaN),
      sc_text = rs_text s, sc_callouts = rs_callouts s\<rparr>"

text \<open>
  \<open>#normalizeManifest(manifest)\<close>: the loop over the clone, and the scenes of the
  clone in the order of the array.
\<close>

definition core_normalizeManifest :: "raw_scene list \<Rightarrow> nat list \<Rightarrow> error + scene list" where
  "core_normalizeManifest objs refs =
     (case core_scenes objs (Fin 0) 0 refs of
        Inl e \<Rightarrow> Inl e
      | Inr objs' \<Rightarrow> Inr (map (\<lambda>a. as_scene (objs' ! a)) refs))"

subsection \<open>The loader: \<open>normalizeManifest\<close> and the check before it\<close>

text \<open>\<open>Math.max(0.1, Number(scene.d || 0))\<close>.\<close>

definition clamp_d :: "(jsval \<Rightarrow> jsnum) \<Rightarrow> jsval \<Rightarrow> jsnum" where
  "clamp_d ext v = jmax (Fin 0.1) (ToNumber ext (if truthy v then v else JNum (Fin 0)))"

text \<open>
  \<open>{...s}\<close>: a new object with the properties of \<open>s\<close>, none when \<open>s\<close> is
  \<open>undefined\<close>.
\<close>

definition spread_scene :: "raw_scene list \<Rightarrow> nat \<Rightarrow> raw_scene" where
  "spread_scene objs a =
     (case scene_ref objs a of
        Some s \<Rightarrow> s
      | None \<Rightarrow> \<lparr>rs_t = JUndefined, rs_d = JUndefined, rs_src = JUndefined,
                  rs_text = [], rs_callouts = []\<rparr>)"

text \<open>
  One step of \<open>m.scenes.map((s, i) => ...)\<close> on the new object: the duration is
  clamped first and tested afterwards (\<open>!scene.d || !isFinite(scene.d)\<close>); then
  \<open>media.src\<close> is replaced. The text of \<open>String(media.src || "").trim()\<close>, resolved
  against the manifest's location when it is not empty, is the parameter \<open>href\<close>.
\<close>

definition loader_scene ::
    "(jsval \<Rightarrow> jsnum) \<Rightarrow> (jsval \<Rightarrow> string) \<Rightarrow> nat \<Rightarrow> raw_scene \<Rightarrow> error + raw_scene" where
  "loader_scene ext href i s =
     (let dd = clamp_d ext (rs_d s) in
      if \<not> truthy (JNum dd) \<or> \<not> isFinite dd then Inl (RequiresPositiveDuration i)
      else Inr (s\<lparr>rs_d := JNum dd, rs_src := JStr (href (rs_src s))\<rparr>))"

fun loader_scenes ::
    "(jsval \<Rightarrow> jsnum) \<Rightarrow> (jsval \<Rightarrow> string) \<Rightarrow> nat \<Rightarrow> raw_scene list \<Rightarrow> error + raw_scene list" where
  "loader_scenes ext href i [] = Inr []"
| "loader_scenes ext href i (s # rest) =
     (case loader_scene ext href i s of
        Inl e \<Rightarrow> Inl e
      | Inr s' \<Rightarrow>
          (case loader_scenes ext href (Suc i) rest of
             Inl e \<Rightarrow> Inl e
           | Inr out \<Rightarrow> Inr (s' # out)))"

text \<open>\<open>sumDurations\<close>: \<open>scenes.reduce((acc, s) => acc + (Number(s?.d) || 0), 0)\<close>.\<close>

definition sumDurations :: "(jsval \<Rightarrow> jsnum) \<Rightarrow> raw_scene list \<Rightarrow> jsnum" where
  "sumDurations ext scenes =
     foldl (\<lambda>acc s. jadd acc (let n = ToNumber ext (rs_d s) in
                               if truthy (JNum n) then n else Fin 0))
       (Fin 0) scenes"

text \<open>
  \<open>normalizeManifest(raw, manifestUrl)\<close> of the loader. A \<open>scenes\<close> that is not an
  array is replaced by the empty array. Every element of the result of \<open>map\<close> is a
  new object, so the result lists the new table in order. The result carries the
  normalized scenes, the theme and the duration hint.
\<close>

definition normalizeManifest ::
    "(jsval \<Rightarrow> jsnum) \<Rightarrow> (jsval \<Rightarrow> string) \<Rightarrow> raw_manifest \<Rightarrow> error + raw_manifest" where
  "normalizeManifest ext href raw =
     (case loader_scenes ext href 0
             (map (spread_scene (rm_objects raw))
                (case rm_scenes raw of None \<Rightarrow> [] | Some refs \<Rightarrow> refs)) of
        Inl e \<Rightarrow> Inl e
      | Inr out \<Rightarrow>
          Inr (raw\<lparr>rm_objects := out,
                   rm_scenes := Some [0..<length out],
                   rm_theme := (if rm_theme raw = ''dark'' then ''dark'' else ''light''),
                   rm_duration :=
                     (let n = ToNumber ext (rm_duration raw) in
                      JNum (if truthy (JNum n) then n else sumDurations ext out))\<rparr>))"

text \<open>
  The manifest steps of \<open>loadProject\<close>, after the fetch: the parsed value (\<open>None\<close>
  when it is falsy) must have a \<open>scenes\<close> array, and is then normalized.
\<close>

definition loadProject_manifest ::
    "(jsval \<Rightarrow> jsnum) \<Rightarrow> (jsval \<Rightarrow> string) \<Rightarrow> raw_manifest option \<Rightarrow> error + raw_manifest" where
  "loadProject_manifest ext href raw =
     (case raw of
        None \<Rightarrow> Inl ManifestMissingScenes
      | Some m \<Rightarrow>
          (case rm_scenes m of
             None \<Rightarrow> Inl ManifestMissingScenes
           | Some _ \<Rightarrow> normalizeManifest ext href m))"

subsection \<open>The presets: the duration test of \<open>sanitizeScene\<close>\<close>

text \<open>
  The first two lines of \<open>sanitizeScene(s)\<close> in the presets module:
  \<open>const d = Number(s.d); if (!d || d <= 0) throw ...\<close>.
\<close>

definition sanitizeScene_duration :: "(jsval \<Rightarrow> jsnum) \<Rightarrow> raw_scene \<Rightarrow> error + jsnum" where
  "sanitizeScene_duration ext s =
     (let d = ToNumber ext (rs_d s) in
      if \<not> truthy (JNum d) \<or> jle d (Fin 0) then Inl SceneRequiresPositiveDuration else Inr d)"

section \<open>The playback state of \<open>ZdkCore\<close>\<close>

subsection \<open>Trigger keys\<close>

text \<open>A non-negative integer in a template string: its decimal digits.\<close>

function show_nat :: "nat \<Rightarrow> string" where
  "show_nat n =
     (if n < 10 then [''0123456789'' ! n]
      else show_nat (n div 10) @ [''0123456789'' ! (n mod 10)])"
  by pat_completeness auto
termination
  by (relation "measure id") auto

declare show_nat.simps [simp del]

definition show_int :: "int \<Rightarrow> string" where
  "show_int i = (if i < 0 then CHR ''-'' # show_nat (nat (- i)) else show_nat (nat i))"

text \<open>
  The three key templates of the source. \<open>#tickScene\<close> uses \<open>`${index}#${idx}`\<close> for
  text and \<open>`${index}#c${idx}`\<close> for callouts; \<open>#enterScene\<close> deletes
  \<open>`${index}#${idx}`\<close> from both sets.
\<close>

definition text_key :: "int \<Rightarrow> nat \<Rightarrow> string" where
  "text_key index idx = show_int index @ ''#'' @ show_nat idx"

definition callout_key :: "int \<Rightarrow> nat \<Rightarrow> string" where
  "callout_key index idx = show_int index @ ''#c'' @ show_nat idx"

subsection \<open>Mounted scene nodes\<close>

text \<open>
  What the engine keeps of a text element: whether it carries the class \<open>is-in\<close>, its
  inline opacity, and the offset and position stored with it. A callout has no inline
  opacity.
\<close>

record text_node =
  tn_is_in :: bool
  tn_opacity :: string
  tn_at :: jsnum
  tn_idx :: nat

record callout_node =
  cn_is_in :: bool
  cn_at :: jsnum
  cn_idx :: nat

record scene_node =
  textNodes :: "text_node list"
  calloutNodes :: "callout_node list"

text \<open>
  The fields of a \<open>ZdkCore\<close> instance that playback reads and writes. \<open>raf\<close> tells
  whether an animation frame is requested. \<open>pendingEnter\<close> lists the scene changes
  whose \<open>#onSceneChange\<close> is suspended at its \<open>await\<close>, and \<open>pendingRemoval\<close> the
  removal timers that \<open>#exitScene\<close> has set.
\<close>

record core =
  scenes :: "scene list"
  running :: bool
  elapsed :: jsnum
  activeIndex :: int
  sceneNodes :: "int \<rightharpoonup> scene_node"
  firedText :: "string set"
  firedCallout :: "string set"
  raf :: bool
  pendingEnter :: "int list"
  pendingRemoval :: "int list"

text \<open>\<open>this.manifest.scenes[index]\<close>: \<open>undefined\<close> outside the array.\<close>

definition scene_at :: "scene list \<Rightarrow> int \<Rightarrow> scene option" where
  "scene_at arr index =
     (if 0 \<le> index \<and> index < int (length arr) then Some (arr ! nat index) else None)"

subsection \<open>Construction and start\<close>

text \<open>
  The constructor: \<open>mount\<close> must be present, the manifest must be an object with a
  \<open>scenes\<close> array, and the scenes are normalized; playback state starts empty.
\<close>

definition constructor :: "bool \<Rightarrow> raw_manifest option \<Rightarrow> error + core" where
  "constructor mount manifest =
     (if \<not> mount then Inl MountRequired
      else case manifest of
        None \<Rightarrow> Inl ScenesRequired
      | Some m \<Rightarrow>
          (case rm_scenes m of
             None \<Rightarrow> Inl ScenesRequired
           | Some refs \<Rightarrow>
               (case core_normalizeManifest (rm_objects m) refs of
                  Inl e \<Rightarrow> Inl e
                | Inr out \<Rightarrow>
                    Inr \<lparr>scenes = out, running = False, elapsed = Fin 0, activeIndex = - 1,
                         sceneNodes = Map.empty, firedText = {}, firedCallout = {},
                         raf = False, pendingEnter = [], pendingRemoval = []\<rparr>)))"

text \<open>\<open>start()\<close>, after its preload: playback state is reset and a frame requested.\<close>

definition start :: "core \<Rightarrow> core" where
  "start c = c\<lparr>running := True, elapsed := Fin 0, activeIndex := - 1,
                firedText := {}, firedCallout := {}, raf := True\<rparr>"

subsection \<open>Mounting\<close>

text \<open>The nodes \<open>#ensureSceneMounted\<close> builds for a scene, all hidden.\<close>

definition build_text :: "sub_event list \<Rightarrow> text_node list" where
  "build_text blocks =
     map (\<lambda>(block, i). \<lparr>tn_is_in = False, tn_opacity = ''0'',
                          tn_at = (case ev_at block of None \<Rightarrow> Fin 0 | Some a \<Rightarrow> a),
                          tn_idx = i\<rparr>)
       (zip blocks [0..<length blocks])"

definition build_callouts :: "sub_event list \<Rightarrow> callout_node list" where
  "build_callouts cs =
     map (\<lambda>(c, i). \<lparr>cn_is_in = False,
                      cn_at = (case ev_at c of None \<Rightarrow> Fin 0 | Some a \<Rightarrow> a),
                      cn_idx = i\<rparr>)
       (zip cs [0..<length cs])"

text \<open>The reveal of the finalize branch: opacity 1 and class \<open>is-in\<close>.\<close>

definition reveal_text :: "text_node \<Rightarrow> text_node" where
  "reveal_text n = n\<lparr>tn_opacity := ''1'', tn_is_in := True\<rparr>"

definition reveal_callout :: "callout_node \<Rightarrow> callout_node" where
  "reveal_callout n = n\<lparr>cn_is_in := True\<rparr>"

text \<open>
  \<open>#ensureSceneMounted(index, finalize)\<close> up to its \<open>await\<close>. An index that is
  already mounted returns at once, before the finalize flag is looked at. A scene that
  does not exist makes \<open>scene.media\<close> throw.
\<close>

definition ensureSceneMounted :: "int \<Rightarrow> bool \<Rightarrow> core \<Rightarrow> error + core" where
  "ensureSceneMounted index finalize c =
     (if sceneNodes c index \<noteq> None then Inr c
      else case scene_at (scenes c) index of
        None \<Rightarrow> Inl TypeError
      | Some scene \<Rightarrow>
          (let tns = build_text (sc_text scene);
               cns = build_callouts (sc_callouts scene);
               node = (if finalize
                       then \<lparr>textNodes = map reveal_text tns,
                             calloutNodes = map reveal_callout cns\<rparr>
                       else \<lparr>textNodes = tns, calloutNodes = cns\<rparr>)
           in Inr (c\<lparr>sceneNodes := (sceneNodes c)(index \<mapsto> node)\<rparr>)))"

subsection \<open>Entering and leaving a scene\<close>

text \<open>
  \<open>#enterScene(index)\<close>. Nothing happens when the scene is not mounted. Otherwise the
  key \<open>`${index}#${idx}`\<close> of every text node is deleted from the fired-text set and the
  same key, built from every callout node, from the fired-callout set; then the scene
  record is read (for the transition and the Ken Burns duration) and every node loses
  its class \<open>is-in\<close>.
\<close>

definition hide_text :: "text_node \<Rightarrow> text_node" where
  "hide_text n = n\<lparr>tn_is_in := False\<rparr>"

definition hide_callout :: "callout_node \<Rightarrow> callout_node" where
  "hide_callout n = n\<lparr>cn_is_in := False\<rparr>"

definition enterScene :: "int \<Rightarrow> core \<Rightarrow> error + core" where
  "enterScene index c =
     (case sceneNodes c index of
        None \<Rightarrow> Inr c
      | Some node \<Rightarrow>
          (let ft = foldl (\<lambda>S n. S - {text_key index (tn_idx n)}) (firedText c) (textNodes node);
               fc = foldl (\<lambda>S n. S - {text_key index (cn_idx n)}) (firedCallout c)
                      (calloutNodes node)
           in case scene_at (scenes c) index of
                None \<Rightarrow> Inl TypeError
              | Some scene \<Rightarrow>
                  Inr (c\<lparr>firedText := ft, firedCallout := fc,
                         sceneNodes := (sceneNodes c)(index \<mapsto>
                           \<lparr>textNodes = map hide_text (textNodes node),
                            calloutNodes = map hide_callout (calloutNodes node)\<rparr>)\<rparr>)))"

text \<open>
  \<open>#exitScene(index)\<close>: for a mounted scene the exit transition is applied and a
  removal timer is set. The timer's callback deletes the index from the mounted nodes.
\<close>

definition exitScene :: "int \<Rightarrow> core \<Rightarrow> error + core" where
  "exitScene index c =
     (case sceneNodes c index of
        None \<Rightarrow> Inr c
      | Some node \<Rightarrow>
          (case scene_at (scenes c) index of
             None \<Rightarrow> Inl TypeError
           | Some scene \<Rightarrow> Inr (c\<lparr>pendingRemoval := pendingRemoval c @ [index]\<rparr>)))"

definition removalTimer :: "int \<Rightarrow> core \<Rightarrow> core" where
  "removalTimer index c =
     (if index \<in> set (pendingRemoval c)
      then c\<lparr>sceneNodes := (sceneNodes c)(index := None),
              pendingRemoval := remove1 index (pendingRemoval c)\<rparr>
      else c)"

text \<open>
  \<open>#onSceneChange(prevIdx, nextIdx)\<close> up to its \<open>await\<close>: exit the previous scene,
  mount the next one. It is an async function, so an exception inside it rejects its
  promise and is not seen by the caller. The rest of it (\<open>#enterScene\<close>) runs later,
  as \<open>resumeEnter\<close>.
\<close>

definition onSceneChange :: "int \<Rightarrow> int \<Rightarrow> core \<Rightarrow> core" where
  "onSceneChange prevIdx nextIdx c =
     (case (if prevIdx \<ge> 0 then exitScene prevIdx c else Inr c) of
        Inl e \<Rightarrow> c
      | Inr c1 \<Rightarrow>
          if nextIdx \<ge> 0
          then (case ensureSceneMounted nextIdx False c1 of
                  Inl e \<Rightarrow> c1
                | Inr c2 \<Rightarrow> c2\<lparr>pendingEnter := pendingEnter c2 @ [nextIdx]\<rparr>)
          else c1)"

definition resumeEnter :: "int \<Rightarrow> core \<Rightarrow> core" where
  "resumeEnter index c =
     (if index \<in> set (pendingEnter c)
      then (let c1 = c\<lparr>pendingEnter := remove1 index (pendingEnter c)\<rparr>
            in case enterScene index c1 of Inl e \<Rightarrow> c1 | Inr c2 \<Rightarrow> c2)
      else c)"

subsection \<open>The per-frame scheduler\<close>

text \<open>
  The two \<open>forEach\<close> loops of \<open>#tickScene\<close> have one shape and differ in the key
  template and in what the reveal writes. \<open>tick_nodes\<close> is that loop, threading the
  fired set: a node whose key is not in the set and whose offset is reached
  (\<open>tLocal >= at\<close>) is revealed and its key is added.
\<close>

fun tick_nodes :: "('n \<Rightarrow> string) \<Rightarrow> ('n \<Rightarrow> jsnum) \<Rightarrow> ('n \<Rightarrow> 'n) \<Rightarrow> jsnum \<Rightarrow> 'n list \<Rightarrow> string set
    \<Rightarrow> 'n list \<times> string set" where
  "tick_nodes key offset reveal tLocal [] fired = ([], fired)"
| "tick_nodes key offset reveal tLocal (n # ns) fired =
     (if key n \<notin> fired \<and> jge tLocal (offset n)
      then (let (ns', fired') = tick_nodes key offset reveal tLocal ns (insert (key n) fired)
            in (reveal n # ns', fired'))
      else (let (ns', fired') = tick_nodes key offset reveal tLocal ns fired
            in (n # ns', fired')))"

text \<open>
  The reveal of a text node in a tick: class \<open>is-in\<close> added, inline opacity cleared.
  A callout only gets the class, as in the finalize branch.
\<close>

definition show_text :: "text_node \<Rightarrow> text_node" where
  "show_text n = n\<lparr>tn_is_in := True, tn_opacity := []\<rparr>"

definition tick_text :: "int \<Rightarrow> jsnum \<Rightarrow> text_node list \<Rightarrow> string set \<Rightarrow> text_node list \<times> string set" where
  "tick_text index tLocal = tick_nodes (\<lambda>n. text_key index (tn_idx n)) tn_at show_text tLocal"

definition tick_callouts :: "int \<Rightarrow> jsnum \<Rightarrow> callout_node list \<Rightarrow> string set \<Rightarrow> callout_node list \<times> string set" where
  "tick_callouts index tLocal =
     tick_nodes (\<lambda>n. callout_key index (cn_idx n)) cn_at reveal_callout tLocal"

text \<open>
  \<open>#tickScene(index, now)\<close>: the scene record is read first (\<open>now - s.t\<close>), then an
  unmounted scene returns.
\<close>

definition tickScene :: "int \<Rightarrow> jsnum \<Rightarrow> core \<Rightarrow> error + core" where
  "tickScene index tnow c =
     (case scene_at (scenes c) index of
        None \<Rightarrow> Inl TypeError
      | Some s \<Rightarrow>
          (let tLocal = jsub tnow (sc_t s) in
           case sceneNodes c index of
             None \<Rightarrow> Inr c
           | Some node \<Rightarrow>
               (let (tns, ft) = tick_text index tLocal (textNodes node) (firedText c);
                    (cns, fc) = tick_callouts index tLocal (calloutNodes node) (firedCallout c)
                in Inr (c\<lparr>sceneNodes := (sceneNodes c)(index \<mapsto>
                              \<lparr>textNodes = tns, calloutNodes = cns\<rparr>),
                          firedText := ft, firedCallout := fc\<rparr>))))"

text \<open>
  \<open>stop(toEnd)\<close>: the frame request is cancelled and \<open>running\<close> cleared; with
  \<open>toEnd\<close> the last index is passed to \<open>#ensureSceneMounted\<close> with the finalize
  flag. That call is not awaited, so its exception is a rejected promise and the state
  stays as it is.
\<close>

definition stop :: "bool \<Rightarrow> core \<Rightarrow> core" where
  "stop toEnd c =
     (let c1 = c\<lparr>raf := False, running := False\<rparr> in
      if toEnd
      then (case ensureSceneMounted (int (length (scenes c1)) - 1) True c1 of
              Inl e \<Rightarrow> c1
            | Inr c2 \<Rightarrow> c2)
      else c1)"

text \<open>
  The frame callback \<open>loop\<close> of \<open>start()\<close>, at \<open>tnow\<close> seconds after the clock
  origin. The last scene is read without a test for an empty array.
\<close>

definition loop :: "jsnum \<Rightarrow> core \<Rightarrow> error + core" where
  "loop tnow c =
     (if \<not> running c then Inr c
      else
        (let c1 = c\<lparr>elapsed := tnow\<rparr>;
             idx = findSceneIndexAt (scenes c1) tnow;
             c2 = (if idx \<noteq> activeIndex c1
                   then (onSceneChange (activeIndex c1) idx c1)\<lparr>activeIndex := idx\<rparr>
                   else c1)
         in case (if idx \<ge> 0 then tickScene idx tnow c2 else Inr c2) of
              Inl e \<Rightarrow> Inl e
            | Inr c3 \<Rightarrow>
                (case scene_at (scenes c3) (int (length (scenes c3)) - 1) of
                   None \<Rightarrow> Inl TypeError
                 | Some lastScene \<Rightarrow>
                     if jgt tnow (jadd (jadd (sc_t lastScene) (sc_d lastScene)) (Fin 0.25))
                     then Inr (stop True c3)
                     else Inr (c3\<lparr>raf := True\<rparr>))))"

section \<open>Start times resolved by the core\<close>

text \<open>
  What the loop of \<open>#normalizeManifest\<close> leaves of the table: only \<open>t\<close> is ever
  written, only in objects the array lists, and never over a number.
\<close>

lemma scene_ref_Some: "(scene_ref objs a = Some s) = (a < length objs \<and> s = objs ! a)"
  by (auto simp: scene_ref_def)

lemma scene_ref_None: "(scene_ref objs a = None) = (length objs \<le> a)"
  by (auto simp: scene_ref_def)

lemma core_scenes_step:
  assumes "core_scenes objs cursor i (a # rest) = Inr objs'"
  shows "\<exists>dd. a < length objs \<and> rs_d (objs ! a) = JNum dd \<and> \<not> jle dd (Fin 0)
     \<and> (case rs_t (objs ! a) of
          JNum tt \<Rightarrow> core_scenes objs (jadd tt dd) (Suc i) rest = Inr objs'
        | _ \<Rightarrow> core_scenes (objs[a := (objs ! a)\<lparr>rs_t := JNum cursor\<rparr>]) (jadd cursor dd) (Suc i) rest
                = Inr objs')"
proof (cases "scene_ref objs a")
  case None
  with assms show ?thesis by simp
next
  case (Some s)
  then have a: "a < length objs" and s: "s = objs ! a" by (simp_all add: scene_ref_Some)
  show ?thesis
  proof (cases "rs_d s")
    case (JNum dd)
    show ?thesis
    proof (cases "jle dd (Fin 0)")
      case True
      with assms Some JNum show ?thesis by simp
    next
      case False
      with assms Some JNum a s show ?thesis
        by (cases "rs_t (objs ! a)") simp_all
    qed
  qed (use assms Some in simp_all)
qed

lemma core_scenes_frame:
  "core_scenes objs cursor i refs = Inr objs' \<Longrightarrow>
     length objs' = length objs
     \<and> (\<forall>a<length objs.
           rs_d (objs' ! a) = rs_d (objs ! a) \<and> rs_src (objs' ! a) = rs_src (objs ! a)
           \<and> rs_text (objs' ! a) = rs_text (objs ! a)
           \<and> rs_callouts (objs' ! a) = rs_callouts (objs ! a)
           \<and> (is_number (rs_t (objs ! a)) \<longrightarrow> rs_t (objs' ! a) = rs_t (objs ! a))
           \<and> (a \<notin> set refs \<longrightarrow> objs' ! a = objs ! a))
     \<and> (\<forall>a\<in>set refs. a < length objs \<and> is_number (rs_t (objs' ! a))
           \<and> (\<exists>x. rs_d (objs ! a) = JNum x \<and> \<not> jle x (Fin 0)))"
proof (induction refs arbitrary: objs cursor i)
  case Nil
  then show ?case by simp
next
  case (Cons a rest)
  from core_scenes_step [OF Cons.prems] obtain dd where a: "a < length objs"
    and dd: "rs_d (objs ! a) = JNum dd" "\<not> jle dd (Fin 0)"
    and run: "case rs_t (objs ! a) of
          JNum tt \<Rightarrow> core_scenes objs (jadd tt dd) (Suc i) rest = Inr objs'
        | _ \<Rightarrow> core_scenes (objs[a := (objs ! a)\<lparr>rs_t := JNum cursor\<rparr>]) (jadd cursor dd) (Suc i) rest
                = Inr objs'"
    by blast
  show ?case
  proof (cases "is_number (rs_t (objs ! a))")
    case True
    then obtain tt where tt: "rs_t (objs ! a) = JNum tt" by (cases "rs_t (objs ! a)") auto
    with run have "core_scenes objs (jadd tt dd) (Suc i) rest = Inr objs'" by simp
    from Cons.IH [OF this] a dd tt show ?thesis by auto
  next
    case False
    let ?o1 = "objs[a := (objs ! a)\<lparr>rs_t := JNum cursor\<rparr>]"
    from False run have "core_scenes ?o1 (jadd cursor dd) (Suc i) rest = Inr objs'"
      by (cases "rs_t (objs ! a)") simp_all
    note ih = Cons.IH [OF this]
    have len: "length ?o1 = length objs" by simp
    have same: "?o1 ! b = objs ! b" if "b \<noteq> a" for b using that by simp
    have at_a: "?o1 ! a = (objs ! a)\<lparr>rs_t := JNum cursor\<rparr>" using a by simp
    from ih len have l: "length objs' = length objs" by simp
    have fields: "rs_d (objs' ! b) = rs_d (objs ! b) \<and> rs_src (objs' ! b) = rs_src (objs ! b)
           \<and> rs_text (objs' ! b) = rs_text (objs ! b)
           \<and> rs_callouts (objs' ! b) = rs_callouts (objs ! b)
           \<and> (is_number (rs_t (objs ! b)) \<longrightarrow> rs_t (objs' ! b) = rs_t (objs ! b))
           \<and> (b \<notin> set (a # rest) \<longrightarrow> objs' ! b = objs ! b)" if b: "b < length objs" for b
    proof (cases "b = a")
      case True
      from ih b len have "rs_d (objs' ! b) = rs_d (?o1 ! b) \<and> rs_src (objs' ! b) = rs_src (?o1 ! b)
           \<and> rs_text (objs' ! b) = rs_text (?o1 ! b)
           \<and> rs_callouts (objs' ! b) = rs_callouts (?o1 ! b)"
        by simp
      with True at_a False show ?thesis by simp
    next
      case ne: False
      from ih b len have "rs_d (objs' ! b) = rs_d (?o1 ! b) \<and> rs_src (objs' ! b) = rs_src (?o1 ! b)
           \<and> rs_text (objs' ! b) = rs_text (?o1 ! b)
           \<and> rs_callouts (objs' ! b) = rs_callouts (?o1 ! b)
           \<and> (is_number (rs_t (?o1 ! b)) \<longrightarrow> rs_t (objs' ! b) = rs_t (?o1 ! b))
           \<and> (b \<notin> set rest \<longrightarrow> objs' ! b = ?o1 ! b)"
        by simp
      with same [OF ne] ne show ?thesis by simp
    qed
    have listed: "b < length objs \<and> is_number (rs_t (objs' ! b))
           \<and> (\<exists>x. rs_d (objs ! b) = JNum x \<and> \<not> jle x (Fin 0))" if b: "b \<in> set (a # rest)" for b
    proof (cases "b = a")
      case True
      from ih a len at_a have "rs_t (objs' ! a) = JNum cursor" by simp
      with True a dd show ?thesis by simp
    next
      case ne: False
      with b have "b \<in> set rest" by simp
      with ih have "b < length ?o1 \<and> is_number (rs_t (objs' ! b))
           \<and> (\<exists>x. rs_d (?o1 ! b) = JNum x \<and> \<not> jle x (Fin 0))"
        by blast
      with same [OF ne] show ?thesis by simp
    qed
    from l fields listed show ?thesis by blast
  qed
qed

lemma core_scenes_accepts:
  "(\<exists>objs'. core_scenes objs cursor i refs = Inr objs')
     = (\<forall>a\<in>set refs. a < length objs \<and> (\<exists>x. rs_d (objs ! a) = JNum x \<and> \<not> jle x (Fin 0)))"
proof (induction refs arbitrary: objs cursor i)
  case Nil
  then show ?case by simp
next
  case (Cons a rest)
  show ?case
  proof (cases "a < length objs \<and> (\<exists>x. rs_d (objs ! a) = JNum x \<and> \<not> jle x (Fin 0))")
    case False
    have "\<not> (\<exists>objs'. core_scenes objs cursor i (a # rest) = Inr objs')"
    proof
      assume "\<exists>objs'. core_scenes objs cursor i (a # rest) = Inr objs'"
      then obtain objs' where "core_scenes objs cursor i (a # rest) = Inr objs'" by blast
      from core_scenes_step [OF this] False show False by blast
    qed
    with False show ?thesis by auto
  next
    case True
    then obtain dd where a: "a < length objs" and dd: "rs_d (objs ! a) = JNum dd" "\<not> jle dd (Fin 0)"
      by blast
    then have ref: "scene_ref objs a = Some (objs ! a)" by (simp add: scene_ref_def)
    show ?thesis
    proof (cases "is_number (rs_t (objs ! a))")
      case num: True
      then obtain tt where tt: "rs_t (objs ! a) = JNum tt" by (cases "rs_t (objs ! a)") auto
      have "core_scenes objs cursor i (a # rest) = core_scenes objs (jadd tt dd) (Suc i) rest"
        using ref dd tt by simp
      with Cons.IH [of objs "jadd tt dd" "Suc i"] True show ?thesis by simp
    next
      case False
      let ?o1 = "objs[a := (objs ! a)\<lparr>rs_t := JNum cursor\<rparr>]"
      have step: "core_scenes objs cursor i (a # rest) = core_scenes ?o1 (jadd cursor dd) (Suc i) rest"
        using ref dd False by (cases "rs_t (objs ! a)") simp_all
      have "rs_d (?o1 ! b) = rs_d (objs ! b)" if "b < length objs" for b
        using that by (cases "b = a") simp_all
      then have "(\<forall>b\<in>set rest. b < length ?o1 \<and> (\<exists>x. rs_d (?o1 ! b) = JNum x \<and> \<not> jle x (Fin 0)))
          = (\<forall>b\<in>set rest. b < length objs \<and> (\<exists>x. rs_d (objs ! b) = JNum x \<and> \<not> jle x (Fin 0)))"
        by auto
      with Cons.IH [of ?o1 "jadd cursor dd" "Suc i"] step True show ?thesis by simp
    qed
  qed
qed

lemma core_scenes_error:
  "core_scenes objs cursor i refs = Inl e \<Longrightarrow>
     \<exists>k<length refs. (e = TypeError \<and> length objs \<le> refs ! k)
        \<or> (e = MissingPositiveDuration (i + k) \<and> refs ! k < length objs
            \<and> \<not> (\<exists>x. rs_d (objs ! (refs ! k)) = JNum x \<and> \<not> jle x (Fin 0)))"
proof (induction refs arbitrary: objs cursor i)
  case Nil
  then show ?case by simp
next
  case (Cons a rest)
  show ?case
  proof (cases "a < length objs")
    case False
    with Cons.prems have "e = TypeError" by (simp add: scene_ref_def)
    with False have "(e = TypeError \<and> length objs \<le> (a # rest) ! 0)" by simp
    then show ?thesis by (intro exI [of _ 0]) simp
  next
    case a: True
    then have ref: "scene_ref objs a = Some (objs ! a)" by (simp add: scene_ref_def)
    show ?thesis
    proof (cases "\<exists>x. rs_d (objs ! a) = JNum x \<and> \<not> jle x (Fin 0)")
      case False
      with Cons.prems ref have "e = MissingPositiveDuration (i + 0)"
        by (auto split: jsval.splits if_splits)
      with False a show ?thesis by (intro exI [of _ 0]) simp
    next
      case True
      then obtain dd where dd: "rs_d (objs ! a) = JNum dd" "\<not> jle dd (Fin 0)" by blast
      let ?o1 = "objs[a := (objs ! a)\<lparr>rs_t := JNum cursor\<rparr>]"
      have d1: "rs_d (?o1 ! b) = rs_d (objs ! b)" for b
        using a by (cases "b = a") simp_all
      from Cons.prems ref dd obtain objs1 cur where run: "core_scenes objs1 cur (Suc i) rest = Inl e"
        and o1: "objs1 = objs \<or> objs1 = ?o1"
        by (cases "rs_t (objs ! a)") auto
      from o1 d1 have same: "length objs1 = length objs" "\<And>b. rs_d (objs1 ! b) = rs_d (objs ! b)"
        by auto
      from Cons.IH [OF run] obtain k where "k < length rest"
        "(e = TypeError \<and> length objs1 \<le> rest ! k)
        \<or> (e = MissingPositiveDuration (Suc i + k) \<and> rest ! k < length objs1
            \<and> \<not> (\<exists>x. rs_d (objs1 ! (rest ! k)) = JNum x \<and> \<not> jle x (Fin 0)))"
        by blast
      with same show ?thesis by (intro exI [of _ "Suc k"]) simp
    qed
  qed
qed

text \<open>
  The first occurrence of an object without a number \<open>t\<close> gets the cursor: the start
  of the loop's cursor at the first position, and after that the resolved start of the
  previous position plus its duration.
\<close>

lemma core_scenes_chain:
  "core_scenes objs cursor i refs = Inr objs' \<Longrightarrow> k < length refs \<Longrightarrow>
   \<not> is_number (rs_t (objs ! (refs ! k))) \<Longrightarrow> refs ! k \<notin> set (take k refs) \<Longrightarrow>
     sc_t (as_scene (objs' ! (refs ! k)))
       = (if k = 0 then cursor
          else jadd (sc_t (as_scene (objs' ! (refs ! (k - 1)))))
                    (sc_d (as_scene (objs' ! (refs ! (k - 1))))))"
proof (induction refs arbitrary: objs cursor i k)
  case Nil
  then show ?case by simp
next
  case (Cons a rest)
  from core_scenes_step [OF Cons.prems(1)] obtain dd where a: "a < length objs"
    and dd: "rs_d (objs ! a) = JNum dd" "\<not> jle dd (Fin 0)"
    and run: "case rs_t (objs ! a) of
          JNum tt \<Rightarrow> core_scenes objs (jadd tt dd) (Suc i) rest = Inr objs'
        | _ \<Rightarrow> core_scenes (objs[a := (objs ! a)\<lparr>rs_t := JNum cursor\<rparr>]) (jadd cursor dd) (Suc i) rest
                = Inr objs'"
    by blast
  let ?o1 = "objs[a := (objs ! a)\<lparr>rs_t := JNum cursor\<rparr>]"
  define objs1 where "objs1 = (if is_number (rs_t (objs ! a)) then objs else ?o1)"
  define tt where "tt = (case rs_t (objs ! a) of JNum x \<Rightarrow> x | _ \<Rightarrow> cursor)"
  have run1: "core_scenes objs1 (jadd tt dd) (Suc i) rest = Inr objs'"
    using run unfolding objs1_def tt_def by (cases "rs_t (objs ! a)") simp_all
  have len1: "length objs1 = length objs" by (simp add: objs1_def)
  have a1: "rs_t (objs1 ! a) = JNum tt" "rs_d (objs1 ! a) = JNum dd"
    using a dd unfolding objs1_def tt_def by (cases "rs_t (objs ! a)"; simp)+
  note fr = core_scenes_frame [OF run1]
  from fr a len1 a1 have fin_a: "rs_t (objs' ! a) = JNum tt" "rs_d (objs' ! a) = JNum dd"
    by simp_all
  show ?case
  proof (cases k)
    case 0
    with Cons.prems(3) have "\<not> is_number (rs_t (objs ! a))" by simp
    then have "tt = cursor" by (cases "rs_t (objs ! a)") (simp_all add: tt_def)
    with fin_a 0 show ?thesis by (simp add: as_scene_def)
  next
    case (Suc k')
    with Cons.prems(2) have k': "k' < length rest" by simp
    from Cons.prems(4) Suc have ne: "rest ! k' \<noteq> a" and fresh: "rest ! k' \<notin> set (take k' rest)"
      by simp_all
    from ne have "objs1 ! (rest ! k') = objs ! (rest ! k')" by (simp add: objs1_def)
    with Cons.prems(3) Suc have nn: "\<not> is_number (rs_t (objs1 ! (rest ! k')))" by simp
    note ih = Cons.IH [OF run1 k' nn fresh]
    show ?thesis
    proof (cases k')
      case 0
      with ih Suc fin_a show ?thesis by (simp add: as_scene_def)
    next
      case (Suc k'')
      with ih \<open>k = Suc k'\<close> show ?thesis by simp
    qed
  qed
qed

text \<open>
  The two readings of an omitted start time: the previous scene's resolved start plus
  its duration (0 for the first scene), and the sum of the durations of all prior
  scenes, added from the left starting at 0.
\<close>

definition chain_start :: "scene list \<Rightarrow> nat \<Rightarrow> jsnum" where
  "chain_start out k =
     (if k = 0 then Fin 0 else jadd (sc_t (out ! (k - 1))) (sc_d (out ! (k - 1))))"

definition sum_prior :: "scene list \<Rightarrow> nat \<Rightarrow> jsnum" where
  "sum_prior out k = foldl jadd (Fin 0) (map sc_d (take k out))"

lemma core_normalizeManifest_chain:
  assumes "core_normalizeManifest objs refs = Inr out" and "k < length refs"
    and "\<not> is_number (rs_t (objs ! (refs ! k)))" and "refs ! k \<notin> set (take k refs)"
  shows "sc_t (out ! k) = chain_start out k"
proof -
  from assms(1) obtain objs' where run: "core_scenes objs (Fin 0) 0 refs = Inr objs'"
    and out: "out = map (\<lambda>a. as_scene (objs' ! a)) refs"
    by (auto simp: core_normalizeManifest_def split: sum.splits)
  from core_scenes_chain [OF run assms(2-4)] assms(2) out show ?thesis
    by (cases k) (simp_all add: chain_start_def)
qed

lemma core_normalizeManifest_sum:
  assumes "core_normalizeManifest objs refs = Inr out"
  shows "k < length refs \<Longrightarrow> distinct (take (Suc k) refs) \<Longrightarrow>
         (\<forall>j\<le>k. \<not> is_number (rs_t (objs ! (refs ! j)))) \<Longrightarrow>
         sc_t (out ! k) = sum_prior out k"
proof (induction k)
  case 0
  then have "\<not> is_number (rs_t (objs ! (refs ! 0)))" by blast
  from core_normalizeManifest_chain [OF assms 0(1) this] show ?case
    by (simp add: chain_start_def sum_prior_def)
next
  case (Suc k)
  from Suc.prems(1) have k: "k < length refs" by simp
  from Suc.prems(2) have dk: "distinct (take (Suc k) refs)"
    by (metis Suc_n_not_le_n distinct_take nat_le_linear take_all take_take min.absorb1 le_SucI order_refl)
  from Suc.IH [OF k dk] Suc.prems(3)
  have ih: "sc_t (out ! k) = sum_prior out k" by simp
  from Suc.prems(3) have nn: "\<not> is_number (rs_t (objs ! (refs ! Suc k)))" by simp
  from Suc.prems(1,2) have fresh: "refs ! Suc k \<notin> set (take (Suc k) refs)"
    by (simp add: take_Suc_conv_app_nth [of "Suc k" refs])
  from assms have len: "length out = length refs"
    by (auto simp: core_normalizeManifest_def split: sum.splits)
  from core_normalizeManifest_chain [OF assms Suc.prems(1) nn fresh]
  have "sc_t (out ! Suc k) = jadd (sc_t (out ! k)) (sc_d (out ! k))"
    by (simp add: chain_start_def)
  also have "\<dots> = sum_prior out (Suc k)"
    using ih k len by (simp add: sum_prior_def take_Suc_conv_app_nth)
  finally show ?case .
qed

text \<open>
  Three scenes of durations 2, 3, 2 without \<open>t\<close>; a scene with an explicit start
  followed by one without; and one scene object listed twice.
\<close>

definition three_scenes :: raw_manifest where
  "three_scenes =
     \<lparr>rm_objects =
        [\<lparr>rs_t = JUndefined, rs_d = JNum (Fin 2), rs_src = JStr ''01.webp'', rs_text = [], rs_callouts = []\<rparr>,
         \<lparr>rs_t = JUndefined, rs_d = JNum (Fin 3), rs_src = JStr ''02.webp'', rs_text = [], rs_callouts = []\<rparr>,
         \<lparr>rs_t = JUndefined, rs_d = JNum (Fin 2), rs_src = JStr ''03.webp'', rs_text = [], rs_callouts = []\<rparr>],
      rm_scenes = Some [0, 1, 2], rm_theme = ''light'', rm_duration = JUndefined\<rparr>"

definition explicit_then_chained :: raw_manifest where
  "explicit_then_chained =
     \<lparr>rm_objects =
        [\<lparr>rs_t = JNum (Fin 10), rs_d = JNum (Fin 2), rs_src = JStr ''01.webp'', rs_text = [], rs_callouts = []\<rparr>,
         \<lparr>rs_t = JUndefined, rs_d = JNum (Fin 3), rs_src = JStr ''02.webp'', rs_text = [], rs_callouts = []\<rparr>],
      rm_scenes = Some [0, 1], rm_theme = ''light'', rm_duration = JUndefined\<rparr>"

definition scene_listed_twice :: raw_manifest where
  "scene_listed_twice =
     \<lparr>rm_objects =
        [\<lparr>rs_t = JUndefined, rs_d = JNum (Fin 2), rs_src = JStr ''01.webp'', rs_text = [], rs_callouts = []\<rparr>],
      rm_scenes = Some [0, 0], rm_theme = ''light'', rm_duration = JUndefined\<rparr>"

text \<open>
  C5 (as stated): every scene without an explicit start time starts at the sum of the
  durations of all prior scenes. This fails when a prior scene has an explicit \<open>t\<close>:
  for \<open>[{t: 10, d: 2}, {d: 3}]\<close> the second scene starts at 12, not at 2.
\<close>

theorem prior_durations_sum_counterexample:
  "rm_scenes explicit_then_chained = Some [0, 1]
   \<and> core_normalizeManifest (rm_objects explicit_then_chained) [0, 1]
     = Inr [\<lparr>sc_t = Fin 10, sc_d = Fin 2, sc_text = [], sc_callouts = []\<rparr>,
            \<lparr>sc_t = Fin 12, sc_d = Fin 3, sc_text = [], sc_callouts = []\<rparr>]
   \<and> \<not> is_number (rs_t (rm_objects explicit_then_chained ! 1))
   \<and> sc_t ([\<lparr>sc_t = Fin 10, sc_d = Fin 2, sc_text = [], sc_callouts = []\<rparr>,
            \<lparr>sc_t = Fin 12, sc_d = Fin 3, sc_text = [], sc_callouts = []\<rparr>] ! 1) = Fin 12
   \<and> sum_prior [\<lparr>sc_t = Fin 10, sc_d = Fin 2, sc_text = [], sc_callouts = []\<rparr>,
            \<lparr>sc_t = Fin 12, sc_d = Fin 3, sc_text = [], sc_callouts = []\<rparr>] 1 = Fin 2"
  by (simp add: core_normalizeManifest_def explicit_then_chained_def sum_prior_def
      scene_ref_def as_scene_def)

text \<open>
  C5 (amended). For every manifest the core accepts and every position of \<open>scenes\<close>
  that holds a scene object whose \<open>t\<close> is not a number and that no earlier position
  holds as well, the resolved start time is the resolved start time of the previous
  position plus its duration (0 at the first position). When in addition the earlier
  positions hold distinct objects none of which has a number \<open>t\<close>, this is the sum of
  the durations of all prior scenes. In particular three scenes of durations 2, 3, 2
  without \<open>t\<close> resolve to the start times 0, 2, 5 and the total duration 7: the last
  scene ends at 7, and the loader sets \<open>duration\<close> to 7.
\<close>

theorem auto_chained_start_time:
  "(core_normalizeManifest objs refs = Inr out \<and> k < length refs
      \<and> \<not> is_number (rs_t (objs ! (refs ! k))) \<and> refs ! k \<notin> set (take k refs)
      \<longrightarrow> sc_t (out ! k) = chain_start out k
          \<and> (distinct (take k refs) \<and> (\<forall>j<k. \<not> is_number (rs_t (objs ! (refs ! j))))
               \<longrightarrow> sc_t (out ! k) = sum_prior out k))
   \<and> rm_scenes three_scenes = Some [0, 1, 2]
   \<and> (\<exists>out3. core_normalizeManifest (rm_objects three_scenes) [0, 1, 2] = Inr out3
          \<and> map sc_t out3 = [Fin 0, Fin 2, Fin 5]
          \<and> jadd (sc_t (last out3)) (sc_d (last out3)) = Fin 7)
   \<and> (\<exists>m'. normalizeManifest ext href three_scenes = Inr m' \<and> rm_duration m' = JNum (Fin 7))"
proof (intro conjI impI; (elim conjE)?)
  assume ok: "core_normalizeManifest objs refs = Inr out" and k: "k < length refs"
    and nn: "\<not> is_number (rs_t (objs ! (refs ! k)))" and fresh: "refs ! k \<notin> set (take k refs)"
  from ok k nn fresh show "sc_t (out ! k) = chain_start out k"
    by (rule core_normalizeManifest_chain)
  assume dist: "distinct (take k refs)" and none: "\<forall>j<k. \<not> is_number (rs_t (objs ! (refs ! j)))"
  from dist fresh k have "distinct (take (Suc k) refs)"
    by (simp add: take_Suc_conv_app_nth)
  moreover from none nn have "\<forall>j\<le>k. \<not> is_number (rs_t (objs ! (refs ! j)))"
    by (auto simp: le_less)
  ultimately show "sc_t (out ! k) = sum_prior out k"
    using ok k by (intro core_normalizeManifest_sum)
next
  show "rm_scenes three_scenes = Some [0, 1, 2]"
    by (simp add: three_scenes_def)
  show "\<exists>out3. core_normalizeManifest (rm_objects three_scenes) [0, 1, 2] = Inr out3
          \<and> map sc_t out3 = [Fin 0, Fin 2, Fin 5]
          \<and> jadd (sc_t (last out3)) (sc_d (last out3)) = Fin 7"
    by (simp add: core_normalizeManifest_def three_scenes_def scene_ref_def as_scene_def)
  show "\<exists>m'. normalizeManifest ext href three_scenes = Inr m' \<and> rm_duration m' = JNum (Fin 7)"
    by (simp add: normalizeManifest_def three_scenes_def spread_scene_def scene_ref_def
        loader_scene_def clamp_d_def sumDurations_def Let_def)
qed

theorem auto_chained_start_time_witness:
  "core_normalizeManifest (rm_objects explicit_then_chained) [0, 1]
     = Inr [\<lparr>sc_t = Fin 10, sc_d = Fin 2, sc_text = [], sc_callouts = []\<rparr>,
            \<lparr>sc_t = Fin 12, sc_d = Fin 3, sc_text = [], sc_callouts = []\<rparr>]
   \<and> \<not> is_number (rs_t (rm_objects explicit_then_chained ! 1))
   \<and> chain_start [\<lparr>sc_t = Fin 10, sc_d = Fin 2, sc_text = [], sc_callouts = []\<rparr>,
            \<lparr>sc_t = Fin 12, sc_d = Fin 3, sc_text = [], sc_callouts = []\<rparr>] 1 = Fin 12
   \<and> (\<exists>out3. core_normalizeManifest (rm_objects three_scenes) [0, 1, 2] = Inr out3
        \<and> sc_t (out3 ! 2) = sum_prior out3 2 \<and> sum_prior out3 2 = Fin 5)
   \<and> core_normalizeManifest (rm_objects scene_listed_twice) [0, 0]
     = Inr [\<lparr>sc_t = Fin 0, sc_d = Fin 2, sc_text = [], sc_callouts = []\<rparr>,
            \<lparr>sc_t = Fin 0, sc_d = Fin 2, sc_text = [], sc_callouts = []\<rparr>]"
proof -
  let ?o = "[\<lparr>sc_t = Fin 10, sc_d = Fin 2, sc_text = [], sc_callouts = []\<rparr>,
            \<lparr>sc_t = Fin 12, sc_d = Fin 3, sc_text = [], sc_callouts = []\<rparr>]"
  have a: "core_normalizeManifest (rm_objects explicit_then_chained) [0, 1] = Inr ?o"
    by (simp add: core_normalizeManifest_def explicit_then_chained_def scene_ref_def as_scene_def)
  have b: "\<not> is_number (rs_t (rm_objects explicit_then_chained ! ([0, 1] ! 1)))"
    "1 < length [0, 1::nat]" "[0, 1::nat] ! 1 \<notin> set (take 1 [0, 1])"
    by (simp_all add: explicit_then_chained_def)
  from auto_chained_start_time [where objs = "rm_objects explicit_then_chained"
      and refs = "[0, 1]" and out = ?o and k = 1] a b
  have c: "sc_t (?o ! 1) = chain_start ?o 1" by blast
  obtain out3 where o3: "core_normalizeManifest (rm_objects three_scenes) [0, 1, 2] = Inr out3"
    using auto_chained_start_time [where objs = "[]" and refs = "[]" and out = "[]" and k = 0]
    by blast
  have d: "\<not> is_number (rs_t (rm_objects three_scenes ! ([0, 1, 2] ! 2)))"
    "2 < length [0, 1, 2::nat]" "[0, 1, 2::nat] ! 2 \<notin> set (take 2 [0, 1, 2])"
    "distinct (take 2 [0, 1, 2::nat])"
    "\<forall>j<2. \<not> is_number (rs_t (rm_objects three_scenes ! ([0, 1, 2] ! j)))"
    by (simp_all add: three_scenes_def less_Suc_eq numeral_2_eq_2)
  from auto_chained_start_time [where objs = "rm_objects three_scenes"
      and refs = "[0, 1, 2]" and out = out3 and k = 2] o3 d
  have e: "sc_t (out3 ! 2) = sum_prior out3 2" by blast
  have f: "sum_prior out3 2 = Fin 5"
    using o3 by (auto simp: core_normalizeManifest_def three_scenes_def sum_prior_def
        numeral_2_eq_2 scene_ref_def as_scene_def)
  have g: "core_normalizeManifest (rm_objects scene_listed_twice) [0, 0]
     = Inr [\<lparr>sc_t = Fin 0, sc_d = Fin 2, sc_text = [], sc_callouts = []\<rparr>,
            \<lparr>sc_t = Fin 0, sc_d = Fin 2, sc_text = [], sc_callouts = []\<rparr>]"
    by (simp add: core_normalizeManifest_def scene_listed_twice_def scene_ref_def as_scene_def)
  from a b c o3 e f g show ?thesis by auto
qed

section \<open>Validation and clamping of durations\<close>

lemma jmax_tenth_cases:
  "jmax (Fin 0.1) y = (case y of Fin b \<Rightarrow> Fin (max 0.1 b) | PInf \<Rightarrow> PInf | NInf \<Rightarrow> Fin 0.1 | NaN \<Rightarrow> NaN)"
  by (cases y) (auto simp: max_def)

lemma clamp_d_finite_ge:
  "clamp_d ext v = Fin x \<Longrightarrow> 0.1 \<le> x"
  by (auto simp: clamp_d_def jmax_tenth_cases split: jsnum.splits)

lemma clamp_d_not_NInf: "clamp_d ext v \<noteq> NInf"
  by (auto simp: clamp_d_def jmax_tenth_cases split: jsnum.splits)

text \<open>
  The loader's test after the clamp can fail for \<open>NaN\<close> and \<open>+Infinity\<close> only: the
  clamped value is never 0, and never below 0.1.
\<close>

lemma loader_scene_Inr:
  "(loader_scene ext href i s = Inr s') =
     ((\<exists>x. clamp_d ext (rs_d s) = Fin x)
      \<and> s' = s\<lparr>rs_d := JNum (clamp_d ext (rs_d s)), rs_src := JStr (href (rs_src s))\<rparr>)"
proof (cases "clamp_d ext (rs_d s)")
  case (Fin x)
  then have "x \<noteq> 0" using clamp_d_finite_ge [of ext "rs_d s" x] by auto
  with Fin show ?thesis by (auto simp: loader_scene_def Let_def)
qed (auto simp: loader_scene_def Let_def)

lemma loader_scene_Inl:
  "(\<exists>e. loader_scene ext href i s = Inl e) =
     (clamp_d ext (rs_d s) = NaN \<or> clamp_d ext (rs_d s) = PInf)"
proof (cases "clamp_d ext (rs_d s)")
  case (Fin x)
  then have "x \<noteq> 0" using clamp_d_finite_ge [of ext "rs_d s" x] by auto
  with Fin show ?thesis by (auto simp: loader_scene_def Let_def)
next
  case NInf
  then show ?thesis using clamp_d_not_NInf [of ext "rs_d s"] by simp
qed (auto simp: loader_scene_def Let_def)

lemma loader_scenes_Inl:
  "(\<exists>e. loader_scenes ext href i raw = Inl e) =
     (\<exists>s\<in>set raw. clamp_d ext (rs_d s) = NaN \<or> clamp_d ext (rs_d s) = PInf)"
proof (induction raw arbitrary: i)
  case Nil
  then show ?case by simp
next
  case (Cons s rest)
  show ?case
  proof (cases "loader_scene ext href i s")
    case (Inl e)
    then have "clamp_d ext (rs_d s) = NaN \<or> clamp_d ext (rs_d s) = PInf"
      using loader_scene_Inl [of ext href i s] by blast
    with Inl show ?thesis by auto
  next
    case (Inr s')
    then have "\<not> (clamp_d ext (rs_d s) = NaN \<or> clamp_d ext (rs_d s) = PInf)"
      using loader_scene_Inl [of ext href i s] by auto
    with Inr Cons [of "Suc i"] show ?thesis
      by (auto split: sum.splits)
  qed
qed

text \<open>
  A conversion for strings and objects that parses nothing, a resolution of
  \<open>media.src\<close> that leaves a string as it is, and a manifest for the examples: one
  scene with a given \<open>d\<close>.
\<close>

definition no_parse :: "jsval \<Rightarrow> jsnum" where
  "no_parse v = NaN"

definition plain_href :: "jsval \<Rightarrow> string" where
  "plain_href v = (case v of JStr s \<Rightarrow> s | _ \<Rightarrow> [])"

definition one_scene :: "jsval \<Rightarrow> jsval \<Rightarrow> raw_scene" where
  "one_scene dv src =
     \<lparr>rs_t = JUndefined, rs_d = dv, rs_src = src, rs_text = [], rs_callouts = []\<rparr>"

definition one_scene_manifest :: "jsval \<Rightarrow> jsval \<Rightarrow> jsval \<Rightarrow> raw_manifest" where
  "one_scene_manifest dv src dur =
     \<lparr>rm_objects = [one_scene dv src], rm_scenes = Some [0],
      rm_theme = ''light'', rm_duration = dur\<rparr>"

text \<open>
  C3. A manifest in which some scene has a non-positive or non-finite duration is claimed
  to be rejected. The loader's \<open>normalizeManifest\<close> assigns
  \<open>Math.max(0.1, Number(scene.d || 0))\<close> before it tests
  \<open>!scene.d || !isFinite(scene.d)\<close>, so its test never sees a duration that is 0 or
  below 0.1. A manifest whose only scene has a \<open>d\<close> that is 0, negative,
  \<open>-Infinity\<close>, \<open>null\<close> or missing passes \<open>loadProject\<close> with the duration 0.1,
  and the core's constructor accepts what the loader returns. The same manifest given to
  the core's constructor is rejected, and so is its scene by \<open>sanitizeScene\<close> of the
  presets. A \<open>d\<close> that is \<open>NaN\<close> passes the loader in the same way, and passes the
  core's own test as well (\<open>NaN <= 0\<close> is false), as \<open>+Infinity\<close> does.
\<close>

theorem loader_accepts_nonpositive_duration:
  "clamp_d ext v \<noteq> Fin 0
   \<and> ((\<exists>x. dv = JNum (Fin x) \<and> x \<le> 0) \<or> dv = JNum NInf \<or> dv = JNull \<or> dv = JUndefined
      \<longrightarrow> loadProject_manifest ext href (Some (one_scene_manifest dv src JUndefined))
            = Inr (one_scene_manifest (JNum (Fin 0.1)) (JStr (href src)) (JNum (Fin 0.1)))
          \<and> constructor True
              (Some (one_scene_manifest (JNum (Fin 0.1)) (JStr (href src)) (JNum (Fin 0.1))))
            = Inr \<lparr>scenes = [\<lparr>sc_t = Fin 0, sc_d = Fin 0.1, sc_text = [], sc_callouts = []\<rparr>],
                   running = False, elapsed = Fin 0, activeIndex = - 1,
                   sceneNodes = Map.empty, firedText = {}, firedCallout = {},
                   raf = False, pendingEnter = [], pendingRemoval = []\<rparr>
          \<and> constructor True (Some (one_scene_manifest dv src JUndefined))
            = Inl (MissingPositiveDuration 0)
          \<and> sanitizeScene_duration ext (one_scene dv src) = Inl SceneRequiresPositiveDuration)
   \<and> loadProject_manifest ext href (Some (one_scene_manifest (JNum NaN) src JUndefined))
       = Inr (one_scene_manifest (JNum (Fin 0.1)) (JStr (href src)) (JNum (Fin 0.1)))
   \<and> sanitizeScene_duration ext (one_scene (JNum NaN) src) = Inl SceneRequiresPositiveDuration
   \<and> (\<exists>c. constructor True (Some (one_scene_manifest (JNum NaN) src JUndefined)) = Inr c
          \<and> map sc_d (scenes c) = [NaN])
   \<and> (\<exists>c. constructor True (Some (one_scene_manifest (JNum PInf) src JUndefined)) = Inr c
          \<and> map sc_d (scenes c) = [PInf])"
proof (intro conjI impI)
  show "clamp_d ext v \<noteq> Fin 0"
    using clamp_d_finite_ge [of ext v 0] by auto
  show "loadProject_manifest ext href (Some (one_scene_manifest (JNum NaN) src JUndefined))
       = Inr (one_scene_manifest (JNum (Fin 0.1)) (JStr (href src)) (JNum (Fin 0.1)))"
    by (simp add: loadProject_manifest_def normalizeManifest_def one_scene_manifest_def
        one_scene_def spread_scene_def scene_ref_def loader_scene_def sumDurations_def
        clamp_d_def Let_def)
  show "sanitizeScene_duration ext (one_scene (JNum NaN) src) = Inl SceneRequiresPositiveDuration"
    by (simp add: sanitizeScene_duration_def one_scene_def)
  show "\<exists>c. constructor True (Some (one_scene_manifest (JNum NaN) src JUndefined)) = Inr c
          \<and> map sc_d (scenes c) = [NaN]"
    by (simp add: constructor_def core_normalizeManifest_def one_scene_manifest_def
        one_scene_def scene_ref_def as_scene_def)
  show "\<exists>c. constructor True (Some (one_scene_manifest (JNum PInf) src JUndefined)) = Inr c
          \<and> map sc_d (scenes c) = [PInf]"
    by (simp add: constructor_def core_normalizeManifest_def one_scene_manifest_def
        one_scene_def scene_ref_def as_scene_def)
next
  assume bad: "(\<exists>x. dv = JNum (Fin x) \<and> x \<le> 0) \<or> dv = JNum NInf \<or> dv = JNull \<or> dv = JUndefined"
  then have cl: "clamp_d ext dv = Fin 0.1"
    by (auto simp: clamp_d_def max_def)
  show "loadProject_manifest ext href (Some (one_scene_manifest dv src JUndefined))
            = Inr (one_scene_manifest (JNum (Fin 0.1)) (JStr (href src)) (JNum (Fin 0.1)))"
    using cl
    by (simp add: loadProject_manifest_def normalizeManifest_def one_scene_manifest_def
        one_scene_def spread_scene_def scene_ref_def loader_scene_def sumDurations_def Let_def)
  show "constructor True
              (Some (one_scene_manifest (JNum (Fin 0.1)) (JStr (href src)) (JNum (Fin 0.1))))
            = Inr \<lparr>scenes = [\<lparr>sc_t = Fin 0, sc_d = Fin 0.1, sc_text = [], sc_callouts = []\<rparr>],
                   running = False, elapsed = Fin 0, activeIndex = - 1,
                   sceneNodes = Map.empty, firedText = {}, firedCallout = {},
                   raf = False, pendingEnter = [], pendingRemoval = []\<rparr>"
    by (simp add: constructor_def core_normalizeManifest_def one_scene_manifest_def
        one_scene_def scene_ref_def as_scene_def)
  from bad show "constructor True (Some (one_scene_manifest dv src JUndefined))
            = Inl (MissingPositiveDuration 0)"
    by (auto simp: constructor_def core_normalizeManifest_def one_scene_manifest_def
        one_scene_def scene_ref_def)
  from bad show "sanitizeScene_duration ext (one_scene dv src) = Inl SceneRequiresPositiveDuration"
    by (auto simp: sanitizeScene_duration_def one_scene_def)
qed

theorem loader_accepts_nonpositive_duration_witness:
  "loadProject_manifest no_parse plain_href
       (Some (one_scene_manifest (JNum (Fin 0)) (JStr ''01.webp'') JUndefined))
     = Inr (one_scene_manifest (JNum (Fin 0.1)) (JStr ''01.webp'') (JNum (Fin 0.1)))
   \<and> constructor True
       (Some (one_scene_manifest (JNum (Fin 0.1)) (JStr ''01.webp'') (JNum (Fin 0.1))))
     = Inr \<lparr>scenes = [\<lparr>sc_t = Fin 0, sc_d = Fin 0.1, sc_text = [], sc_callouts = []\<rparr>],
            running = False, elapsed = Fin 0, activeIndex = - 1,
            sceneNodes = Map.empty, firedText = {}, firedCallout = {},
            raf = False, pendingEnter = [], pendingRemoval = []\<rparr>
   \<and> constructor True (Some (one_scene_manifest (JNum (Fin 0)) (JStr ''01.webp'') JUndefined))
     = Inl (MissingPositiveDuration 0)
   \<and> sanitizeScene_duration no_parse (one_scene (JNum (Fin 0)) (JStr ''01.webp''))
     = Inl SceneRequiresPositiveDuration
   \<and> loadProject_manifest no_parse plain_href
       (Some (one_scene_manifest (JNum (Fin (- 5))) (JStr ''01.webp'') JUndefined))
     = Inr (one_scene_manifest (JNum (Fin 0.1)) (JStr ''01.webp'') (JNum (Fin 0.1)))
   \<and> loadProject_manifest no_parse plain_href
       (Some (one_scene_manifest JNull (JStr ''01.webp'') JUndefined))
     = Inr (one_scene_manifest (JNum (Fin 0.1)) (JStr ''01.webp'') (JNum (Fin 0.1)))
   \<and> loadProject_manifest no_parse plain_href
       (Some (one_scene_manifest (JNum PInf) (JStr ''01.webp'') JUndefined))
     = Inl (RequiresPositiveDuration 0)
   \<and> loadProject_manifest no_parse plain_href
       (Some (one_scene_manifest (JStr ''soon'') (JStr ''01.webp'') JUndefined))
     = Inl (RequiresPositiveDuration 0)
   \<and> loadProject_manifest no_parse plain_href
       (Some (one_scene_manifest (JNum (Fin 0.05)) (JStr ''01.webp'') JUndefined))
     = Inr (one_scene_manifest (JNum (Fin 0.1)) (JStr ''01.webp'') (JNum (Fin 0.1)))
   \<and> loadProject_manifest no_parse plain_href None = Inl ManifestMissingScenes
   \<and> loadProject_manifest no_parse plain_href
       (Some \<lparr>rm_objects = [], rm_scenes = None, rm_theme = ''dark'', rm_duration = JNum (Fin 45)\<rparr>)
     = Inl ManifestMissingScenes
   \<and> constructor True
       (Some \<lparr>rm_objects = [], rm_scenes = None, rm_theme = ''dark'', rm_duration = JNum (Fin 45)\<rparr>)
     = Inl ScenesRequired"
proof -
  have h: "plain_href (JStr ''01.webp'') = ''01.webp''" by (simp add: plain_href_def)
  note zero = loader_accepts_nonpositive_duration [where ext = no_parse and href = plain_href
      and dv = "JNum (Fin 0)" and src = "JStr ''01.webp''" and v = JNull, unfolded h]
  note neg = loader_accepts_nonpositive_duration [where ext = no_parse and href = plain_href
      and dv = "JNum (Fin (- 5))" and src = "JStr ''01.webp''" and v = JNull, unfolded h]
  note null = loader_accepts_nonpositive_duration [where ext = no_parse and href = plain_href
      and dv = JNull and src = "JStr ''01.webp''" and v = JNull, unfolded h]
  from zero have a:
    "loadProject_manifest no_parse plain_href
       (Some (one_scene_manifest (JNum (Fin 0)) (JStr ''01.webp'') JUndefined))
     = Inr (one_scene_manifest (JNum (Fin 0.1)) (JStr ''01.webp'') (JNum (Fin 0.1)))"
    "constructor True
       (Some (one_scene_manifest (JNum (Fin 0.1)) (JStr ''01.webp'') (JNum (Fin 0.1))))
     = Inr \<lparr>scenes = [\<lparr>sc_t = Fin 0, sc_d = Fin 0.1, sc_text = [], sc_callouts = []\<rparr>],
            running = False, elapsed = Fin 0, activeIndex = - 1,
            sceneNodes = Map.empty, firedText = {}, firedCallout = {},
            raf = False, pendingEnter = [], pendingRemoval = []\<rparr>"
    "constructor True (Some (one_scene_manifest (JNum (Fin 0)) (JStr ''01.webp'') JUndefined))
     = Inl (MissingPositiveDuration 0)"
    "sanitizeScene_duration no_parse (one_scene (JNum (Fin 0)) (JStr ''01.webp''))
     = Inl SceneRequiresPositiveDuration"
    by simp_all
  from neg have b:
    "loadProject_manifest no_parse plain_href
       (Some (one_scene_manifest (JNum (Fin (- 5))) (JStr ''01.webp'') JUndefined))
     = Inr (one_scene_manifest (JNum (Fin 0.1)) (JStr ''01.webp'') (JNum (Fin 0.1)))"
    by simp
  from null have c:
    "loadProject_manifest no_parse plain_href
       (Some (one_scene_manifest JNull (JStr ''01.webp'') JUndefined))
     = Inr (one_scene_manifest (JNum (Fin 0.1)) (JStr ''01.webp'') (JNum (Fin 0.1)))"
    by simp
  have d:
    "loadProject_manifest no_parse plain_href
       (Some (one_scene_manifest (JNum PInf) (JStr ''01.webp'') JUndefined))
     = Inl (RequiresPositiveDuration 0)"
    "loadProject_manifest no_parse plain_href
       (Some (one_scene_manifest (JStr ''soon'') (JStr ''01.webp'') JUndefined))
     = Inl (RequiresPositiveDuration 0)"
    "loadProject_manifest no_parse plain_href
       (Some (one_scene_manifest (JNum (Fin 0.05)) (JStr ''01.webp'') JUndefined))
     = Inr (one_scene_manifest (JNum (Fin 0.1)) (JStr ''01.webp'') (JNum (Fin 0.1)))"
    by (simp_all add: loadProject_manifest_def normalizeManifest_def one_scene_manifest_def
        one_scene_def spread_scene_def scene_ref_def loader_scene_def sumDurations_def
        clamp_d_def no_parse_def plain_href_def Let_def)
  have e: "loadProject_manifest no_parse plain_href None = Inl ManifestMissingScenes"
    "loadProject_manifest no_parse plain_href
       (Some \<lparr>rm_objects = [], rm_scenes = None, rm_theme = ''dark'', rm_duration = JNum (Fin 45)\<rparr>)
     = Inl ManifestMissingScenes"
    "constructor True
       (Some \<lparr>rm_objects = [], rm_scenes = None, rm_theme = ''dark'', rm_duration = JNum (Fin 45)\<rparr>)
     = Inl ScenesRequired"
    by (simp_all add: loadProject_manifest_def constructor_def)
  from a b c d e show ?thesis by simp
qed

section \<open>Trigger keys are injective\<close>

text \<open>
  The decimal digits read back give the number, so the keys of two positions of one
  scene differ, and a callout key of \<open>#tickScene\<close> is never a key of the form
  \<open>`${index}#${idx}`\<close>.
\<close>

lemma digit_nth_code:
  "n < 10 \<Longrightarrow> (of_char (''0123456789'' ! n) :: nat) = 48 + n"
proof -
  have "\<forall>k\<in>{..<10}. (of_char (''0123456789'' ! k) :: nat) = 48 + k"
    by (simp add: lessThan_nat_numeral lessThan_Suc)
  then show "n < 10 \<Longrightarrow> ?thesis" by simp
qed

lemma digit_nth_in: "n < 10 \<Longrightarrow> ''0123456789'' ! n \<in> set ''0123456789''"
  by (rule nth_mem) simp

definition read_nat :: "string \<Rightarrow> nat" where
  "read_nat s = foldl (\<lambda>acc ch. 10 * acc + (of_char ch - 48)) 0 s"

lemma read_show_nat: "read_nat (show_nat n) = n"
proof (induction n rule: show_nat.induct)
  case (1 n)
  show ?case
  proof (cases "n < 10")
    case True
    then show ?thesis
      by (simp add: show_nat.simps [of n] read_nat_def digit_nth_code)
  next
    case False
    with 1 have "read_nat (show_nat (n div 10)) = n div 10" by simp
    with False show ?thesis
      by (simp add: show_nat.simps [of n] read_nat_def digit_nth_code)
  qed
qed

lemma show_nat_inj: "show_nat a = show_nat b \<Longrightarrow> a = b"
  by (metis read_show_nat)

lemma show_nat_digits: "set (show_nat n) \<subseteq> set ''0123456789''"
proof (induction n rule: show_nat.induct)
  case (1 n)
  show ?case
  proof (cases "n < 10")
    case True
    then show ?thesis
      using digit_nth_in [of n] by (simp add: show_nat.simps [of n])
  next
    case False
    with 1 have "set (show_nat (n div 10)) \<subseteq> set ''0123456789''" by simp
    moreover have "''0123456789'' ! (n mod 10) \<in> set ''0123456789''"
      by (rule digit_nth_in) simp
    ultimately show ?thesis using False
      by (simp add: show_nat.simps [of n])
  qed
qed

lemma show_nat_nonempty: "show_nat n \<noteq> []"
  by (simp add: show_nat.simps [of n])

lemma show_int_no_hash: "CHR ''#'' \<notin> set (show_int i)"
  using show_nat_digits [of "nat i"] show_nat_digits [of "nat (- i)"]
  by (auto simp: show_int_def)

lemma text_key_inj: "text_key index a = text_key index b \<Longrightarrow> a = b"
  by (simp add: text_key_def show_nat_inj)

lemma callout_key_inj: "callout_key index a = callout_key index b \<Longrightarrow> a = b"
  by (simp add: callout_key_def show_nat_inj)

lemma split_at_hash:
  assumes "a @ CHR ''#'' # x = b @ CHR ''#'' # y"
    and "CHR ''#'' \<notin> set a" and "CHR ''#'' \<notin> set b"
  shows "a = b \<and> x = y"
proof -
  have tw: "CHR ''#'' \<notin> set u \<Longrightarrow> takeWhile (\<lambda>ch. ch \<noteq> CHR ''#'') (u @ CHR ''#'' # v) = u"
    for u v by (induction u) auto
  have "takeWhile (\<lambda>ch. ch \<noteq> CHR ''#'') (a @ CHR ''#'' # x) = a"
    using assms(2) by (rule tw)
  moreover have "takeWhile (\<lambda>ch. ch \<noteq> CHR ''#'') (b @ CHR ''#'' # y) = b"
    using assms(3) by (rule tw)
  ultimately have "a = b" using assms(1) by simp
  with assms(1) show ?thesis by simp
qed

lemma callout_key_not_text_key: "callout_key i a \<noteq> text_key j b"
proof
  assume "callout_key i a = text_key j b"
  then have "show_int i @ CHR ''#'' # (CHR ''c'' # show_nat a) = show_int j @ CHR ''#'' # show_nat b"
    by (simp add: callout_key_def text_key_def)
  from split_at_hash [OF this show_int_no_hash show_int_no_hash]
  have "CHR ''c'' # show_nat a = show_nat b" by simp
  then have "CHR ''c'' \<in> set (show_nat b)" by (metis list.set_intros(1))
  with show_nat_digits [of b] show False by auto
qed

section \<open>Ticks of a mounted scene\<close>

lemma tick_nodes_fired:
  "snd (tick_nodes key offset reveal loc ns fired)
     = fired \<union> key ` {n \<in> set ns. jge loc (offset n)}"
proof (induction ns arbitrary: fired)
  case Nil
  then show ?case by simp
next
  case (Cons n ns)
  show ?case
  proof (cases "key n \<notin> fired \<and> jge loc (offset n)")
    case True
    then show ?thesis
      using Cons [of "insert (key n) fired"] by (auto simp: split_beta)
  next
    case False
    then show ?thesis
      using Cons [of fired] by (auto simp: split_beta)
  qed
qed

lemma tick_nodes_nodes:
  assumes "distinct (map key ns)"
  shows "fst (tick_nodes key offset reveal loc ns fired)
     = map (\<lambda>n. if key n \<notin> fired \<and> jge loc (offset n) then reveal n else n) ns"
  using assms
proof (induction ns arbitrary: fired)
  case Nil
  then show ?case by simp
next
  case (Cons n ns)
  from Cons.prems have dist: "distinct (map key ns)"
    and fresh: "\<forall>m\<in>set ns. key m \<noteq> key n"
    by (auto simp: image_iff)
  show ?case
  proof (cases "key n \<notin> fired \<and> jge loc (offset n)")
    case True
    have "map (\<lambda>m. if key m \<notin> insert (key n) fired \<and> jge loc (offset m) then reveal m else m) ns
          = map (\<lambda>m. if key m \<notin> fired \<and> jge loc (offset m) then reveal m else m) ns"
      using fresh by (intro map_cong) auto
    with True Cons.IH [OF dist, of "insert (key n) fired"] show ?thesis
      by (simp add: split_beta)
  next
    case False
    with Cons.IH [OF dist, of fired] show ?thesis
      by (auto simp: split_beta)
  qed
qed

lemma reveal_twice_nodes:
  assumes "distinct (map key ns)"
    and "\<And>n. key (reveal n) = key n"
    and "\<And>n. Q (reveal n) = Q n"
  shows "map (\<lambda>n. if key n \<notin> F \<union> key ` {m \<in> set ns. P m} \<and> Q n then reveal n else n)
           (map (\<lambda>n. if key n \<notin> F \<and> P n then reveal n else n) ns)
         = map (\<lambda>n. if key n \<notin> F \<and> (P n \<or> Q n) then reveal n else n) ns"
proof -
  have "(if key (if key n \<notin> F \<and> P n then reveal n else n) \<notin> F \<union> key ` {m \<in> set ns. P m}
            \<and> Q (if key n \<notin> F \<and> P n then reveal n else n)
         then reveal (if key n \<notin> F \<and> P n then reveal n else n)
         else (if key n \<notin> F \<and> P n then reveal n else n))
        = (if key n \<notin> F \<and> (P n \<or> Q n) then reveal n else n)"
    if n: "n \<in> set ns" for n
  proof (cases "key n \<in> F")
    case True
    then show ?thesis by simp
  next
    case notF: False
    show ?thesis
    proof (cases "P n")
      case True
      with n have "key n \<in> key ` {m \<in> set ns. P m}" by blast
      with True notF show ?thesis by (simp add: assms(2))
    next
      case False
      have "key n \<notin> key ` {m \<in> set ns. P m}"
      proof
        assume "key n \<in> key ` {m \<in> set ns. P m}"
        then obtain m where m: "m \<in> set ns" "P m" "key m = key n" by auto
        from assms(1) have "inj_on key (set ns)" by (simp add: distinct_map)
        with m n have "m = n" by (auto dest: inj_onD)
        with m False show False by simp
      qed
      with False notF show ?thesis by simp
    qed
  qed
  then show ?thesis by (simp add: comp_def cong: map_cong)
qed

lemma fired_twice_nodes:
  assumes "\<And>n. key (reveal n) = key n"
    and "\<And>n. Q (reveal n) = Q n"
  shows "F \<union> key ` {m \<in> set ns. P m}
           \<union> key ` {m \<in> set (map (\<lambda>n. if key n \<notin> F \<and> P n then reveal n else n) ns). Q m}
         = F \<union> key ` {n \<in> set ns. P n \<or> Q n}"
proof -
  have "key ` {m \<in> set (map (\<lambda>n. if key n \<notin> F \<and> P n then reveal n else n) ns). Q m}
        = key ` {n \<in> set ns. Q n}"
  proof (intro set_eqI iffI)
    fix k
    assume "k \<in> key ` {m \<in> set (map (\<lambda>n. if key n \<notin> F \<and> P n then reveal n else n) ns). Q m}"
    then obtain n where "n \<in> set ns" "Q (if key n \<notin> F \<and> P n then reveal n else n)"
      "k = key (if key n \<notin> F \<and> P n then reveal n else n)"
      by auto
    then have "n \<in> set ns \<and> Q n \<and> k = key n"
      by (auto simp: assms split: if_splits)
    then show "k \<in> key ` {n \<in> set ns. Q n}" by blast
  next
    fix k
    assume "k \<in> key ` {n \<in> set ns. Q n}"
    then obtain n where n: "n \<in> set ns" "Q n" "k = key n" by auto
    let ?m = "if key n \<notin> F \<and> P n then reveal n else n"
    from n have "?m \<in> set (map (\<lambda>n. if key n \<notin> F \<and> P n then reveal n else n) ns)"
      by (simp add: image_iff) blast
    moreover from n have "Q ?m" "k = key ?m" by (simp_all add: assms)
    ultimately show "k \<in> key ` {m \<in> set (map (\<lambda>n. if key n \<notin> F \<and> P n then reveal n else n) ns). Q m}"
      by blast
  qed
  then show ?thesis by auto
qed

lemma show_text_keeps [simp]:
  "tn_idx (show_text n) = tn_idx n" "tn_at (show_text n) = tn_at n"
  by (simp_all add: show_text_def)

lemma reveal_callout_keeps [simp]:
  "cn_idx (reveal_callout n) = cn_idx n" "cn_at (reveal_callout n) = cn_at n"
  by (simp_all add: reveal_callout_def)

lemma distinct_text_keys:
  "distinct (map tn_idx ns) \<Longrightarrow> distinct (map (\<lambda>n. text_key index (tn_idx n)) ns)"
  using distinct_map [of "text_key index" "map tn_idx ns"]
  by (auto simp: comp_def inj_on_def dest: text_key_inj)

lemma distinct_callout_keys:
  "distinct (map cn_idx ns) \<Longrightarrow> distinct (map (\<lambda>n. callout_key index (cn_idx n)) ns)"
  using distinct_map [of "callout_key index" "map cn_idx ns"]
  by (auto simp: comp_def inj_on_def dest: callout_key_inj)

lemma tickScene_mounted:
  assumes "scene_at (scenes c) index = Some s"
    and "sceneNodes c index = Some node"
    and "distinct (map tn_idx (textNodes node))"
    and "distinct (map cn_idx (calloutNodes node))"
  shows "\<exists>c' node'. tickScene index t c = Inr c' \<and> scenes c' = scenes c
     \<and> sceneNodes c' index = Some node'
     \<and> textNodes node' =
         map (\<lambda>n. if text_key index (tn_idx n) \<notin> firedText c \<and> jge (jsub t (sc_t s)) (tn_at n)
                   then show_text n else n) (textNodes node)
     \<and> calloutNodes node' =
         map (\<lambda>n. if callout_key index (cn_idx n) \<notin> firedCallout c \<and> jge (jsub t (sc_t s)) (cn_at n)
                   then reveal_callout n else n) (calloutNodes node)
     \<and> firedText c' = firedText c
         \<union> (\<lambda>n. text_key index (tn_idx n)) ` {n \<in> set (textNodes node). jge (jsub t (sc_t s)) (tn_at n)}
     \<and> firedCallout c' = firedCallout c
         \<union> (\<lambda>n. callout_key index (cn_idx n)) ` {n \<in> set (calloutNodes node). jge (jsub t (sc_t s)) (cn_at n)}"
proof -
  let ?loc = "jsub t (sc_t s)"
  let ?tt = "tick_nodes (\<lambda>n. text_key index (tn_idx n)) tn_at show_text ?loc (textNodes node) (firedText c)"
  let ?tc = "tick_nodes (\<lambda>n. callout_key index (cn_idx n)) cn_at reveal_callout ?loc (calloutNodes node) (firedCallout c)"
  have run: "tickScene index t c =
      Inr (c\<lparr>sceneNodes := (sceneNodes c)(index \<mapsto> \<lparr>textNodes = fst ?tt, calloutNodes = fst ?tc\<rparr>),
             firedText := snd ?tt, firedCallout := snd ?tc\<rparr>)"
    using assms(1,2)
    by (simp add: tickScene_def tick_text_def tick_callouts_def Let_def split_beta)
  show ?thesis
    unfolding run
    using tick_nodes_nodes [OF distinct_text_keys [OF assms(3)], of index tn_at show_text ?loc "firedText c"]
      tick_nodes_nodes [OF distinct_callout_keys [OF assms(4)], of index cn_at reveal_callout ?loc "firedCallout c"]
    by (simp add: tick_nodes_fired)
qed

text \<open>
  A scene entry, as far as the fired sets go: successive calls of \<open>#tickScene\<close> for
  one index at the times \<open>ts\<close>, with no \<open>#enterScene\<close>, mount or removal between
  them.
\<close>

fun ticks :: "int \<Rightarrow> jsnum list \<Rightarrow> core \<Rightarrow> error + core" where
  "ticks index [] c = Inr c"
| "ticks index (t # ts) c =
     (case tickScene index t c of Inl e \<Rightarrow> Inl e | Inr c' \<Rightarrow> ticks index ts c')"

lemma map_if_keep:
  "(\<And>n. g (r n) = g n) \<Longrightarrow> map g (map (\<lambda>n. if C n then r n else n) ns) = map g ns"
  by (induction ns) simp_all

lemma ticks_mounted:
  assumes "scene_at (scenes c) index = Some s"
    and "sceneNodes c index = Some node"
    and "distinct (map tn_idx (textNodes node))"
    and "distinct (map cn_idx (calloutNodes node))"
  shows "\<exists>c' node'. ticks index ts c = Inr c' \<and> scenes c' = scenes c
     \<and> sceneNodes c' index = Some node'
     \<and> textNodes node' =
         map (\<lambda>n. if text_key index (tn_idx n) \<notin> firedText c
                      \<and> (\<exists>t\<in>set ts. jge (jsub t (sc_t s)) (tn_at n))
                   then show_text n else n) (textNodes node)
     \<and> calloutNodes node' =
         map (\<lambda>n. if callout_key index (cn_idx n) \<notin> firedCallout c
                      \<and> (\<exists>t\<in>set ts. jge (jsub t (sc_t s)) (cn_at n))
                   then reveal_callout n else n) (calloutNodes node)
     \<and> firedText c' = firedText c
         \<union> (\<lambda>n. text_key index (tn_idx n)) `
             {n \<in> set (textNodes node). \<exists>t\<in>set ts. jge (jsub t (sc_t s)) (tn_at n)}
     \<and> firedCallout c' = firedCallout c
         \<union> (\<lambda>n. callout_key index (cn_idx n)) `
             {n \<in> set (calloutNodes node). \<exists>t\<in>set ts. jge (jsub t (sc_t s)) (cn_at n)}"
  using assms
proof (induction ts arbitrary: c node)
  case Nil
  then show ?case by simp
next
  case (Cons t ts)
  let ?P = "\<lambda>n. jge (jsub t (sc_t s)) (tn_at n)"
  let ?Q = "\<lambda>n. \<exists>u\<in>set ts. jge (jsub u (sc_t s)) (tn_at n)"
  let ?Pc = "\<lambda>n. jge (jsub t (sc_t s)) (cn_at n)"
  let ?Qc = "\<lambda>n. \<exists>u\<in>set ts. jge (jsub u (sc_t s)) (cn_at n)"
  let ?tk = "\<lambda>n. text_key index (tn_idx n)"
  let ?ck = "\<lambda>n. callout_key index (cn_idx n)"
  from tickScene_mounted [OF Cons.prems, of t]
  obtain c1 node1 where step: "tickScene index t c = Inr c1" and sc1: "scenes c1 = scenes c"
    and nd1: "sceneNodes c1 index = Some node1"
    and tx1: "textNodes node1 = map (\<lambda>n. if ?tk n \<notin> firedText c \<and> ?P n then show_text n else n) (textNodes node)"
    and co1: "calloutNodes node1 = map (\<lambda>n. if ?ck n \<notin> firedCallout c \<and> ?Pc n then reveal_callout n else n) (calloutNodes node)"
    and ft1: "firedText c1 = firedText c \<union> ?tk ` {n \<in> set (textNodes node). ?P n}"
    and fc1: "firedCallout c1 = firedCallout c \<union> ?ck ` {n \<in> set (calloutNodes node). ?Pc n}"
    by (elim exE conjE) (rule that)
  have d1: "distinct (map tn_idx (textNodes node1))"
    using Cons.prems(3) unfolding tx1 by (simp only: map_if_keep show_text_keeps)
  have d2: "distinct (map cn_idx (calloutNodes node1))"
    using Cons.prems(4) unfolding co1 by (simp only: map_if_keep reveal_callout_keeps)
  from sc1 Cons.prems(1) have s1: "scene_at (scenes c1) index = Some s" by simp
  from Cons.IH [OF s1 nd1 d1 d2]
  obtain c' node' where run: "ticks index ts c1 = Inr c'" and sc': "scenes c' = scenes c1"
    and nd': "sceneNodes c' index = Some node'"
    and tx': "textNodes node' = map (\<lambda>n. if ?tk n \<notin> firedText c1 \<and> ?Q n then show_text n else n) (textNodes node1)"
    and co': "calloutNodes node' = map (\<lambda>n. if ?ck n \<notin> firedCallout c1 \<and> ?Qc n then reveal_callout n else n) (calloutNodes node1)"
    and ft': "firedText c' = firedText c1 \<union> ?tk ` {n \<in> set (textNodes node1). ?Q n}"
    and fc': "firedCallout c' = firedCallout c1 \<union> ?ck ` {n \<in> set (calloutNodes node1). ?Qc n}"
    by (elim exE conjE) (rule that)
  have tx: "textNodes node' = map (\<lambda>n. if ?tk n \<notin> firedText c \<and> (?P n \<or> ?Q n) then show_text n else n) (textNodes node)"
    unfolding tx' tx1 ft1
    by (rule reveal_twice_nodes [OF distinct_text_keys [OF Cons.prems(3)]]) simp_all
  have co: "calloutNodes node' = map (\<lambda>n. if ?ck n \<notin> firedCallout c \<and> (?Pc n \<or> ?Qc n) then reveal_callout n else n) (calloutNodes node)"
    unfolding co' co1 fc1
    by (rule reveal_twice_nodes [OF distinct_callout_keys [OF Cons.prems(4)]]) simp_all
  have ft: "firedText c' = firedText c \<union> ?tk ` {n \<in> set (textNodes node). ?P n \<or> ?Q n}"
    unfolding ft' tx1 ft1
    by (rule fired_twice_nodes) simp_all
  have fc: "firedCallout c' = firedCallout c \<union> ?ck ` {n \<in> set (calloutNodes node). ?Pc n \<or> ?Qc n}"
    unfolding fc' co1 fc1
    by (rule fired_twice_nodes) simp_all
  have "ticks index (t # ts) c = Inr c'" using step run by simp
  moreover have "scenes c' = scenes c" using sc' sc1 by simp
  ultimately show ?case using nd' tx co ft fc by simp
qed

lemma key_in_fired_image:
  assumes "distinct (map key ns)" and "n \<in> set ns"
  shows "(key n \<in> F \<union> key ` {m \<in> set ns. Q m}) = (key n \<in> F \<or> Q n)"
proof -
  from assms(1) have inj: "inj_on key (set ns)" by (simp add: distinct_map)
  have "(key n \<in> key ` {m \<in> set ns. Q m}) = Q n"
  proof
    assume "key n \<in> key ` {m \<in> set ns. Q m}"
    then obtain m where m: "m \<in> set ns" "Q m" "key m = key n" by auto
    with inj assms(2) have "m = n" by (auto dest: inj_onD)
    with m show "Q n" by simp
  next
    assume "Q n"
    with assms(2) show "key n \<in> key ` {m \<in> set ns. Q m}" by blast
  qed
  then show ?thesis by auto
qed

lemma fires_once_nodes:
  assumes dist: "distinct (map key ns)"
    and keep: "\<And>n. key (reveal n) = key n" "\<And>n. P (reveal n) = P n"
    and j: "j < length ns" and fresh: "key (ns ! j) \<notin> F"
    and ns1: "ns1 = map (\<lambda>n. if key n \<notin> F \<and> Q n then reveal n else n) ns"
    and F1: "F1 = F \<union> key ` {n \<in> set ns. Q n}"
    and ns2: "ns2 = map (\<lambda>n. if key n \<notin> F1 \<and> P n then reveal n else n) ns1"
    and F2: "F2 = F1 \<union> key ` {n \<in> set ns1. P n}"
  shows "(key (ns ! j) \<in> F1) = Q (ns ! j)
     \<and> (key (ns ! j) \<in> F2) = (key (ns ! j) \<in> F1 \<or> (P (ns ! j) \<and> \<not> Q (ns ! j)))
     \<and> ns1 ! j = (if Q (ns ! j) then reveal (ns ! j) else ns ! j)
     \<and> ns2 ! j = (if P (ns ! j) \<and> \<not> Q (ns ! j) then reveal (ns ! j) else ns1 ! j)"
proof -
  let ?n = "ns ! j"
  from j have mem: "?n \<in> set ns" by simp
  have a: "(key ?n \<in> F1) = Q ?n"
    unfolding F1 using key_in_fired_image [OF dist mem, of F Q] fresh by simp
  have b: "ns1 ! j = (if Q ?n then reveal ?n else ?n)"
    unfolding ns1 using j fresh by simp
  have len1: "j < length ns1" and k1: "map key ns1 = map key ns"
    unfolding ns1 using j by (simp_all add: map_if_keep keep)
  from k1 dist have dist1: "distinct (map key ns1)" by simp
  from len1 have mem1: "ns1 ! j \<in> set ns1" by simp
  have kj: "key (ns1 ! j) = key ?n" and pj: "P (ns1 ! j) = P ?n"
    unfolding b by (simp_all add: keep)
  have c: "(key ?n \<in> F2) = (key ?n \<in> F1 \<or> P ?n)"
    unfolding F2 using key_in_fired_image [OF dist1 mem1, of F1 P] kj pj by simp
  have d: "ns2 ! j = (if key ?n \<notin> F1 \<and> P ?n then reveal (ns1 ! j) else ns1 ! j)"
    unfolding ns2 using len1 kj pj by simp
  from a b c d show ?thesis by auto
qed

text \<open>
  The local offset of the tick at time \<open>t\<close> has reached the offset \<open>a\<close>
  (\<open>now - s.t >= at\<close>); some tick of \<open>ts\<close> has reached it; \<open>t\<close> is the first tick
  after those of \<open>ts\<close> that reaches it.
\<close>

definition reached :: "scene \<Rightarrow> jsnum \<Rightarrow> jsnum \<Rightarrow> bool" where
  "reached s a t = jge (jsub t (sc_t s)) a"

definition reached_before :: "scene \<Rightarrow> jsnum \<Rightarrow> jsnum list \<Rightarrow> bool" where
  "reached_before s a ts = (\<exists>u\<in>set ts. reached s a u)"

definition first_reached :: "scene \<Rightarrow> jsnum \<Rightarrow> jsnum list \<Rightarrow> jsnum \<Rightarrow> bool" where
  "first_reached s a ts t = (reached s a t \<and> \<not> reached_before s a ts)"

text \<open>
  A run of ticks of one mounted scene with nothing else in between (no
  \<open>#enterScene\<close>, no removal). Take a scene whose nodes carry distinct positions, and
  a sub-event (text or callout) whose key is not in the fired set at the start. After the
  ticks \<open>ts\<close> its key is in the fired set, and the node revealed, exactly when some
  tick of \<open>ts\<close> had a local offset \<open>\<ge> at\<close>. The next tick \<open>t\<close> adds the key and
  reveals the node exactly when \<open>t\<close> is the first tick whose local offset is
  \<open>\<ge> at\<close>; otherwise it leaves the key's membership and the node as they were.
\<close>

lemma ticks_fire_once:
  assumes "scene_at (scenes c) index = Some s"
    and "sceneNodes c index = Some node"
    and "distinct (map tn_idx (textNodes node))"
    and "distinct (map cn_idx (calloutNodes node))"
  shows "\<exists>c1 c2 node1 node2.
      ticks index ts c = Inr c1 \<and> tickScene index t c1 = Inr c2
    \<and> sceneNodes c1 index = Some node1 \<and> sceneNodes c2 index = Some node2
    \<and> (\<forall>j<length (textNodes node).
         text_key index (tn_idx (textNodes node ! j)) \<notin> firedText c \<longrightarrow>
           (text_key index (tn_idx (textNodes node ! j)) \<in> firedText c1)
             = reached_before s (tn_at (textNodes node ! j)) ts
         \<and> (text_key index (tn_idx (textNodes node ! j)) \<in> firedText c2)
             = (text_key index (tn_idx (textNodes node ! j)) \<in> firedText c1
                \<or> first_reached s (tn_at (textNodes node ! j)) ts t)
         \<and> textNodes node1 ! j
             = (if reached_before s (tn_at (textNodes node ! j)) ts
                then show_text (textNodes node ! j) else textNodes node ! j)
         \<and> textNodes node2 ! j
             = (if first_reached s (tn_at (textNodes node ! j)) ts t
                then show_text (textNodes node ! j) else textNodes node1 ! j))
    \<and> (\<forall>j<length (calloutNodes node).
         callout_key index (cn_idx (calloutNodes node ! j)) \<notin> firedCallout c \<longrightarrow>
           (callout_key index (cn_idx (calloutNodes node ! j)) \<in> firedCallout c1)
             = reached_before s (cn_at (calloutNodes node ! j)) ts
         \<and> (callout_key index (cn_idx (calloutNodes node ! j)) \<in> firedCallout c2)
             = (callout_key index (cn_idx (calloutNodes node ! j)) \<in> firedCallout c1
                \<or> first_reached s (cn_at (calloutNodes node ! j)) ts t)
         \<and> calloutNodes node1 ! j
             = (if reached_before s (cn_at (calloutNodes node ! j)) ts
                then reveal_callout (calloutNodes node ! j) else calloutNodes node ! j)
         \<and> calloutNodes node2 ! j
             = (if first_reached s (cn_at (calloutNodes node ! j)) ts t
                then reveal_callout (calloutNodes node ! j) else calloutNodes node1 ! j))"
proof -
  let ?tk = "\<lambda>n. text_key index (tn_idx n)"
  let ?ck = "\<lambda>n. callout_key index (cn_idx n)"
  let ?Q = "\<lambda>n. \<exists>u\<in>set ts. jge (jsub u (sc_t s)) (tn_at n)"
  let ?P = "\<lambda>n. jge (jsub t (sc_t s)) (tn_at n)"
  let ?Qc = "\<lambda>n. \<exists>u\<in>set ts. jge (jsub u (sc_t s)) (cn_at n)"
  let ?Pc = "\<lambda>n. jge (jsub t (sc_t s)) (cn_at n)"
  from ticks_mounted [OF assms, of ts]
  obtain c1 node1 where run: "ticks index ts c = Inr c1" and sc1: "scenes c1 = scenes c"
    and nd1: "sceneNodes c1 index = Some node1"
    and tx1: "textNodes node1 = map (\<lambda>n. if ?tk n \<notin> firedText c \<and> ?Q n then show_text n else n) (textNodes node)"
    and co1: "calloutNodes node1 = map (\<lambda>n. if ?ck n \<notin> firedCallout c \<and> ?Qc n then reveal_callout n else n) (calloutNodes node)"
    and ft1: "firedText c1 = firedText c \<union> ?tk ` {n \<in> set (textNodes node). ?Q n}"
    and fc1: "firedCallout c1 = firedCallout c \<union> ?ck ` {n \<in> set (calloutNodes node). ?Qc n}"
    by (elim exE conjE) (rule that)
  have d1: "distinct (map tn_idx (textNodes node1))"
    using assms(3) unfolding tx1 by (simp only: map_if_keep show_text_keeps)
  have d2: "distinct (map cn_idx (calloutNodes node1))"
    using assms(4) unfolding co1 by (simp only: map_if_keep reveal_callout_keeps)
  from sc1 assms(1) have s1: "scene_at (scenes c1) index = Some s" by simp
  from tickScene_mounted [OF s1 nd1 d1 d2, of t]
  obtain c2 node2 where step: "tickScene index t c1 = Inr c2"
    and nd2: "sceneNodes c2 index = Some node2"
    and tx2: "textNodes node2 = map (\<lambda>n. if ?tk n \<notin> firedText c1 \<and> ?P n then show_text n else n) (textNodes node1)"
    and co2: "calloutNodes node2 = map (\<lambda>n. if ?ck n \<notin> firedCallout c1 \<and> ?Pc n then reveal_callout n else n) (calloutNodes node1)"
    and ft2: "firedText c2 = firedText c1 \<union> ?tk ` {n \<in> set (textNodes node1). ?P n}"
    and fc2: "firedCallout c2 = firedCallout c1 \<union> ?ck ` {n \<in> set (calloutNodes node1). ?Pc n}"
    by (elim exE conjE) (rule that)
  have txj: "(?tk (textNodes node ! j) \<in> firedText c1) = reached_before s (tn_at (textNodes node ! j)) ts
      \<and> (?tk (textNodes node ! j) \<in> firedText c2)
          = (?tk (textNodes node ! j) \<in> firedText c1 \<or> first_reached s (tn_at (textNodes node ! j)) ts t)
      \<and> textNodes node1 ! j = (if reached_before s (tn_at (textNodes node ! j)) ts
                               then show_text (textNodes node ! j) else textNodes node ! j)
      \<and> textNodes node2 ! j = (if first_reached s (tn_at (textNodes node ! j)) ts t
                               then show_text (textNodes node ! j) else textNodes node1 ! j)"
    if "j < length (textNodes node)" "?tk (textNodes node ! j) \<notin> firedText c" for j
    unfolding reached_before_def first_reached_def reached_def
    by (rule fires_once_nodes [where key = ?tk and reveal = show_text and P = ?P and Q = ?Q,
        OF distinct_text_keys [OF assms(3)] _ _ that tx1 ft1 tx2 ft2]) simp_all
  have coj: "(?ck (calloutNodes node ! j) \<in> firedCallout c1) = reached_before s (cn_at (calloutNodes node ! j)) ts
      \<and> (?ck (calloutNodes node ! j) \<in> firedCallout c2)
          = (?ck (calloutNodes node ! j) \<in> firedCallout c1 \<or> first_reached s (cn_at (calloutNodes node ! j)) ts t)
      \<and> calloutNodes node1 ! j = (if reached_before s (cn_at (calloutNodes node ! j)) ts
                               then reveal_callout (calloutNodes node ! j) else calloutNodes node ! j)
      \<and> calloutNodes node2 ! j = (if first_reached s (cn_at (calloutNodes node ! j)) ts t
                               then reveal_callout (calloutNodes node ! j) else calloutNodes node1 ! j)"
    if "j < length (calloutNodes node)" "?ck (calloutNodes node ! j) \<notin> firedCallout c" for j
    unfolding reached_before_def first_reached_def reached_def
    by (rule fires_once_nodes [where key = ?ck and reveal = reveal_callout and P = ?Pc and Q = ?Qc,
        OF distinct_callout_keys [OF assms(4)] _ _ that co1 fc1 co2 fc2]) simp_all
  show ?thesis
  proof (intro exI conjI allI impI)
    show "ticks index ts c = Inr c1" by (rule run)
    show "tickScene index t c1 = Inr c2" by (rule step)
    show "sceneNodes c1 index = Some node1" by (rule nd1)
    show "sceneNodes c2 index = Some node2" by (rule nd2)
  qed (use txj coj in blast)+
qed

text \<open>The reveal of a tick sets the class \<open>is-in\<close>.\<close>

lemma tick_reveals:
  "tn_is_in (show_text n) \<and> tn_opacity (show_text n) = [] \<and> cn_is_in (reveal_callout m)"
  by (simp add: show_text_def reveal_callout_def)

section \<open>The stop condition on an empty schedule\<close>

lemma findSceneIndexAt_from_range:
  "findSceneIndexAt_from arr t i = - 1
   \<or> (\<exists>k<length arr. findSceneIndexAt_from arr t i = int k)"
proof (induction arr t i rule: findSceneIndexAt_from.induct)
  case (1 arr t i)
  show ?case
  proof (cases "i < length arr \<and> \<not> active_at (arr ! i) t")
    case True
    with 1 show ?thesis by (simp add: findSceneIndexAt_from.simps [of arr t i])
  next
    case False
    then show ?thesis by (auto simp: findSceneIndexAt_from.simps [of arr t i])
  qed
qed

lemma findSceneIndexAt_valid:
  "0 \<le> findSceneIndexAt arr t \<Longrightarrow> \<exists>s. scene_at arr (findSceneIndexAt arr t) = Some s"
  using findSceneIndexAt_from_range [of arr t 0]
  by (auto simp: findSceneIndexAt_def scene_at_def)

lemma findSceneIndexAt_empty: "findSceneIndexAt [] t = - 1"
  by (simp add: findSceneIndexAt_def findSceneIndexAt_from.simps [of "[]"])

lemma ensureSceneMounted_scenes:
  "ensureSceneMounted index fin c = Inr c' \<Longrightarrow> scenes c' = scenes c"
  by (auto simp: ensureSceneMounted_def Let_def split: if_splits option.splits)

lemma exitScene_scenes: "exitScene index c = Inr c' \<Longrightarrow> scenes c' = scenes c"
  by (auto simp: exitScene_def split: option.splits)

lemma onSceneChange_scenes: "scenes (onSceneChange p n c) = scenes c"
proof (cases "if p \<ge> 0 then exitScene p c else Inr c")
  case (Inl e)
  then show ?thesis by (simp add: onSceneChange_def)
next
  case (Inr c1)
  then have c1: "scenes c1 = scenes c"
    by (auto split: if_splits dest: exitScene_scenes)
  show ?thesis
  proof (cases "ensureSceneMounted n False c1")
    case (Inl e)
    with Inr c1 show ?thesis by (simp add: onSceneChange_def)
  next
    case mounted: (Inr c2)
    from ensureSceneMounted_scenes [OF this] c1 have "scenes c2 = scenes c" by simp
    with Inr mounted c1 show ?thesis by (simp add: onSceneChange_def)
  qed
qed

lemma tickScene_total:
  "scene_at (scenes c) index = Some s \<Longrightarrow> \<exists>c'. tickScene index t c = Inr c' \<and> scenes c' = scenes c"
  by (auto simp: tickScene_def Let_def split_beta split: option.splits)

lemma stop_scenes: "scenes (stop b c) = scenes c"
  by (auto simp: stop_def Let_def split: sum.splits dest: ensureSceneMounted_scenes)

lemma scene_at_last: "(scene_at arr (int (length arr) - 1) = None) = (arr = [])"
  by (cases arr) (auto simp: scene_at_def)

lemma loop_running:
  assumes "running c"
  shows "loop t c =
     (case (if findSceneIndexAt (scenes c) t \<ge> 0
            then tickScene (findSceneIndexAt (scenes c) t) t
                   (if findSceneIndexAt (scenes c) t \<noteq> activeIndex c
                    then (onSceneChange (activeIndex c) (findSceneIndexAt (scenes c) t)
                            (c\<lparr>elapsed := t\<rparr>))\<lparr>activeIndex := findSceneIndexAt (scenes c) t\<rparr>
                    else c\<lparr>elapsed := t\<rparr>)
            else Inr (if findSceneIndexAt (scenes c) t \<noteq> activeIndex c
                      then (onSceneChange (activeIndex c) (findSceneIndexAt (scenes c) t)
                              (c\<lparr>elapsed := t\<rparr>))\<lparr>activeIndex := findSceneIndexAt (scenes c) t\<rparr>
                      else c\<lparr>elapsed := t\<rparr>)) of
        Inl e \<Rightarrow> Inl e
      | Inr c3 \<Rightarrow>
          (case scene_at (scenes c3) (int (length (scenes c3)) - 1) of
             None \<Rightarrow> Inl TypeError
           | Some lastScene \<Rightarrow>
               if jgt t (jadd (jadd (sc_t lastScene) (sc_d lastScene)) (Fin 0.25))
               then Inr (stop True c3) else Inr (c3\<lparr>raf := True\<rparr>)))"
  using assms by (simp add: loop_def Let_def cong: if_cong option.case_cong sum.case_cong)

lemma loop_fails_iff:
  "(\<exists>e. loop t c = Inl e) = (running c \<and> scenes c = [])"
proof (cases "running c")
  case False
  then show ?thesis by (simp add: loop_def)
next
  case True
  let ?idx = "findSceneIndexAt (scenes c) t"
  let ?c2 = "if ?idx \<noteq> activeIndex c
      then (onSceneChange (activeIndex c) ?idx (c\<lparr>elapsed := t\<rparr>))\<lparr>activeIndex := ?idx\<rparr>
      else c\<lparr>elapsed := t\<rparr>"
  have sc2: "scenes ?c2 = scenes c"
    by (simp add: onSceneChange_scenes)
  obtain c3 where c3: "(if ?idx \<ge> 0 then tickScene ?idx t ?c2 else Inr ?c2) = Inr c3"
    and sc3: "scenes c3 = scenes c"
  proof (cases "?idx \<ge> 0")
    case nonneg: True
    with findSceneIndexAt_valid [of "scenes c" t] obtain s where "scene_at (scenes ?c2) ?idx = Some s"
      unfolding sc2 by blast
    from tickScene_total [OF this, of t] obtain c' where "tickScene ?idx t ?c2 = Inr c'" "scenes c' = scenes ?c2"
      by blast
    with nonneg sc2 that [of c'] show ?thesis by (simp only: if_True)
  next
    case False
    with sc2 that [of ?c2] show ?thesis by (simp only: if_False)
  qed
  have run: "loop t c =
      (case scene_at (scenes c3) (int (length (scenes c3)) - 1) of
         None \<Rightarrow> Inl TypeError
       | Some lastScene \<Rightarrow>
           if jgt t (jadd (jadd (sc_t lastScene) (sc_d lastScene)) (Fin 0.25))
           then Inr (stop True c3) else Inr (c3\<lparr>raf := True\<rparr>))"
    by (simp only: loop_running [OF True] c3 sum.case)
  show ?thesis
  proof (cases "scenes c = []")
    case True
    with run sc3 \<open>running c\<close> show ?thesis by (simp add: scene_at_def)
  next
    case False
    with scene_at_last [of "scenes c3"] sc3 obtain l where "scene_at (scenes c3) (int (length (scenes c3)) - 1) = Some l"
      by auto
    with run False show ?thesis by simp
  qed
qed

lemma loop_error_is_TypeError: "loop t c = Inl e \<Longrightarrow> e = TypeError"
proof -
  assume err: "loop t c = Inl e"
  then have rs: "running c" "scenes c = []"
    using loop_fails_iff [of t c] by auto
  then have "loop t c = Inl TypeError"
    by (simp add: loop_def Let_def findSceneIndexAt_empty onSceneChange_scenes scene_at_def)
  with err show ?thesis by simp
qed

text \<open>
  C10. The constructor accepts a manifest whose \<open>scenes\<close> is the empty array; the
  first frame callback after \<open>start()\<close> then fails with a \<open>TypeError\<close>, at whatever
  time it runs, because the stop condition reads the last scene of an empty array. This
  is the only way the frame callback fails: it throws exactly when the core is running
  on an empty schedule.
\<close>

theorem empty_schedule_tick_fails:
  "(\<exists>c. constructor True (Some (m\<lparr>rm_scenes := Some []\<rparr>)) = Inr c \<and> scenes c = []
        \<and> loop t (start c) = Inl TypeError)
   \<and> ((\<exists>e. loop t c' = Inl e) = (running c' \<and> scenes c' = []))"
proof
  let ?c = "\<lparr>scenes = [], running = False, elapsed = Fin 0, activeIndex = - 1,
             sceneNodes = Map.empty, firedText = {}, firedCallout = {},
             raf = False, pendingEnter = [], pendingRemoval = []\<rparr>"
  have a: "constructor True (Some (m\<lparr>rm_scenes := Some []\<rparr>)) = Inr ?c"
    by (simp add: constructor_def core_normalizeManifest_def)
  have "running (start ?c) \<and> scenes (start ?c) = []"
    by (simp add: start_def)
  then obtain e where "loop t (start ?c) = Inl e"
    using loop_fails_iff [of t "start ?c"] by blast
  with loop_error_is_TypeError [OF this] have "loop t (start ?c) = Inl TypeError" by simp
  with a show "\<exists>c. constructor True (Some (m\<lparr>rm_scenes := Some []\<rparr>)) = Inr c \<and> scenes c = []
        \<and> loop t (start c) = Inl TypeError"
    by simp
  show "(\<exists>e. loop t c' = Inl e) = (running c' \<and> scenes c' = [])"
    by (rule loop_fails_iff)
qed

section \<open>Stop and finalize\<close>

text \<open>
  \<open>stop\<close> halts the loop: \<open>running\<close> is cleared, the frame request cancelled, and a
  frame callback that still runs does nothing. With \<open>toEnd\<close>, a terminal scene that is
  not mounted is mounted with every text and callout node revealed; a terminal scene that
  is mounted is left exactly as it is.
\<close>

lemma ensureSceneMounted_flags:
  "ensureSceneMounted index fin c = Inr c' \<Longrightarrow>
     running c' = running c \<and> raf c' = raf c \<and> firedText c' = firedText c
     \<and> firedCallout c' = firedCallout c"
  by (auto simp: ensureSceneMounted_def Let_def split: if_splits option.splits)

lemma stop_halts:
  "running (stop b c) = False \<and> raf (stop b c) = False \<and> loop t (stop b c) = Inr (stop b c)"
proof -
  have "running (stop b c) = False \<and> raf (stop b c) = False"
    by (auto simp: stop_def Let_def split: sum.splits dest: ensureSceneMounted_flags)
  then show ?thesis by (simp add: loop_def)
qed

lemma stop_finalize_unmounted:
  assumes "scenes c \<noteq> []" and "sceneNodes c (int (length (scenes c)) - 1) = None"
  shows "sceneNodes (stop True c) (int (length (scenes c)) - 1)
     = Some \<lparr>textNodes = map reveal_text (build_text (sc_text (last (scenes c)))),
             calloutNodes = map reveal_callout (build_callouts (sc_callouts (last (scenes c))))\<rparr>"
proof -
  from assms(1) have "scene_at (scenes c) (int (length (scenes c)) - 1) = Some (last (scenes c))"
    by (cases "scenes c" rule: rev_cases) (auto simp: scene_at_def nth_append)
  with assms(2) show ?thesis
    by (simp add: stop_def ensureSceneMounted_def Let_def)
qed

lemma stop_finalize_mounted:
  assumes "sceneNodes c (int (length (scenes c)) - 1) = Some node"
  shows "stop True c = c\<lparr>raf := False, running := False\<rparr>"
  using assms by (simp add: stop_def ensureSceneMounted_def Let_def)

lemma findSceneIndexAt_single:
  "findSceneIndexAt [s] t = (if active_at s t then 0 else - 1)"
  by (simp add: findSceneIndexAt_def findSceneIndexAt_from.simps [of "[s]" t 0]
      findSceneIndexAt_from.simps [of "[s]" t "Suc 0"])

lemma keys_0_0: "text_key 0 0 = ''0#0''" "callout_key 0 0 = ''0#c0''"
  by (simp_all add: text_key_def callout_key_def show_int_def show_nat.simps [of 0])

definition late_reveal_manifest :: raw_manifest where
  "late_reveal_manifest =
     \<lparr>rm_objects = [\<lparr>rs_t = JUndefined, rs_d = JNum (Fin 2), rs_src = JStr ''01.webp'',
                          rs_text = [\<lparr>ev_html = ''caption'', ev_at = Some (Fin 1.5)\<rparr>],
                          rs_callouts = [\<lparr>ev_html = ''detail'', ev_at = Some (Fin 1.5)\<rparr>]\<rparr>],
      rm_scenes = Some [0],
      rm_theme = ''light'', rm_duration = JUndefined\<rparr>"

text \<open>
  C1. \<open>stop(true)\<close> is claimed to leave every text and callout event of the terminal
  scene revealed. Evaluated on a one-scene manifest whose caption and callout are due
  at 1.5 s: the first frame mounts the scene, the frame at 1 s reveals nothing yet, and
  \<open>stop(true)\<close> at that point halts the loop but leaves both nodes hidden, because
  \<open>#ensureSceneMounted\<close> returns for a mounted index before it reads the finalize flag.
\<close>

theorem stop_finalize_skips_mounted_scene:
  "\<exists>c0 c1 c2. constructor True (Some late_reveal_manifest) = Inr c0
     \<and> loop (Fin 0) (start c0) = Inr c1
     \<and> loop (Fin 1) (resumeEnter 0 c1) = Inr c2
     \<and> running (stop True c2) = False \<and> raf (stop True c2) = False
     \<and> int (length (scenes c2)) - 1 = 0
     \<and> sceneNodes (stop True c2) 0
         = Some \<lparr>textNodes = [\<lparr>tn_is_in = False, tn_opacity = ''0'', tn_at = Fin 1.5, tn_idx = 0\<rparr>],
                 calloutNodes = [\<lparr>cn_is_in = False, cn_at = Fin 1.5, cn_idx = 0\<rparr>]\<rparr>"
  by (simp add: late_reveal_manifest_def constructor_def core_normalizeManifest_def scene_ref_def as_scene_def start_def
      loop_def Let_def findSceneIndexAt_single active_at_def jge_def jgt_def
      jsub_def onSceneChange_def ensureSceneMounted_def scene_at_def build_text_def build_callouts_def
      tickScene_def tick_text_def tick_callouts_def resumeEnter_def enterScene_def
      hide_text_def hide_callout_def stop_def keys_0_0)

section \<open>Entering a scene and the fired sets\<close>

text \<open>
  \<open>#enterScene\<close> removes the text keys of its own scene from the fired-text set and no
  text key of another scene. From the fired-callout set it removes keys of the text form
  \<open>`${index}#${idx}`\<close>, which \<open>#tickScene\<close> never puts there, so every callout key
  stays.
\<close>

lemma foldl_delete: "foldl (\<lambda>S n. S - {f n}) S0 ns = S0 - f ` set ns"
  by (induction ns arbitrary: S0) auto

lemma enterScene_fired:
  assumes "enterScene index c = Inr c'" and "sceneNodes c index = Some node"
  shows "firedText c' = firedText c - (\<lambda>n. text_key index (tn_idx n)) ` set (textNodes node)"
    and "firedCallout c' = firedCallout c - (\<lambda>n. text_key index (cn_idx n)) ` set (calloutNodes node)"
  using assms
  by (auto simp: enterScene_def Let_def foldl_delete split: option.splits)

lemma enterScene_unmounted:
  "sceneNodes c index = None \<Longrightarrow> enterScene index c = Inr c"
  by (simp add: enterScene_def)

lemma enterScene_clears_text_keys:
  assumes "enterScene index c = Inr c'" and "sceneNodes c index = Some node"
    and "n \<in> set (textNodes node)"
  shows "text_key index (tn_idx n) \<notin> firedText c'"
  using enterScene_fired(1) [OF assms(1,2)] assms(3) by auto

lemma enterScene_keeps_callout_keys:
  assumes "enterScene index c = Inr c'"
  shows "(callout_key i k \<in> firedCallout c') = (callout_key i k \<in> firedCallout c)"
proof (cases "sceneNodes c index")
  case None
  with assms show ?thesis by (simp add: enterScene_unmounted)
next
  case (Some node)
  from enterScene_fired(2) [OF assms Some] show ?thesis
    using callout_key_not_text_key [of i k index] by auto
qed

lemma show_int_inj: "show_int i = show_int j \<Longrightarrow> i = j"
proof -
  assume eq: "show_int i = show_int j"
  have no_minus: "CHR ''-'' \<notin> set (show_nat n)" for n
    using show_nat_digits [of n] by auto
  have neg_pos: "CHR ''-'' # show_nat a \<noteq> show_nat b" for a b
    using no_minus [of b] by (metis list.set_intros(1))
  show ?thesis
  proof (cases "i < 0"; cases "j < 0")
    assume "i < 0" "j < 0"
    with eq have "nat (- i) = nat (- j)" by (simp add: show_int_def show_nat_inj)
    with \<open>i < 0\<close> \<open>j < 0\<close> show ?thesis by simp
  next
    assume "i < 0" "\<not> j < 0"
    with eq neg_pos show ?thesis by (simp add: show_int_def)
  next
    assume "\<not> i < 0" "j < 0"
    with eq neg_pos [of "nat (- j)" "nat i"] show ?thesis by (simp add: show_int_def)
  next
    assume "\<not> i < 0" "\<not> j < 0"
    with eq have "nat i = nat j" by (simp add: show_int_def show_nat_inj)
    with \<open>\<not> i < 0\<close> \<open>\<not> j < 0\<close> show ?thesis by simp
  qed
qed

lemma text_key_scene: "text_key i a = text_key j b \<Longrightarrow> i = j"
proof -
  assume "text_key i a = text_key j b"
  then have "show_int i @ CHR ''#'' # show_nat a = show_int j @ CHR ''#'' # show_nat b"
    by (simp add: text_key_def)
  from split_at_hash [OF this show_int_no_hash show_int_no_hash] show ?thesis
    by (simp add: show_int_inj)
qed

lemma enterScene_other_scene_keys:
  assumes "enterScene index c = Inr c'" and "i \<noteq> index"
  shows "(text_key i k \<in> firedText c') = (text_key i k \<in> firedText c)"
proof (cases "sceneNodes c index")
  case None
  with assms show ?thesis by (simp add: enterScene_unmounted)
next
  case (Some node)
  from enterScene_fired(1) [OF assms(1) Some] assms(2) show ?thesis
    by (auto dest: text_key_scene)
qed

definition opening_callout_manifest :: raw_manifest where
  "opening_callout_manifest =
     \<lparr>rm_objects = [\<lparr>rs_t = JUndefined, rs_d = JNum (Fin 2), rs_src = JStr ''01.webp'',
                          rs_text = [\<lparr>ev_html = ''title'', ev_at = Some (Fin 0)\<rparr>],
                          rs_callouts = [\<lparr>ev_html = ''detail'', ev_at = Some (Fin 0)\<rparr>]\<rparr>],
      rm_scenes = Some [0],
      rm_theme = ''light'', rm_duration = JUndefined\<rparr>"

text \<open>
  C2. Entering scene \<open>i\<close> is claimed to clear the text and the callout keys of scene
  \<open>i\<close>, so that every sub-event can fire again. Evaluated on a one-scene manifest with
  a title and a callout at offset 0: the first frame mounts the scene and fires both;
  the suspended \<open>#onSceneChange\<close> then runs \<open>#enterScene\<close>, which hides both nodes
  and clears the text key but leaves the callout key \<open>0#c0\<close> in the fired set; the
  next frame reveals the title again and the callout stays hidden.
\<close>

theorem enterScene_leaves_callout_key:
  "\<exists>c0 c1 c2 c3. constructor True (Some opening_callout_manifest) = Inr c0
     \<and> loop (Fin 0) (start c0) = Inr c1
     \<and> text_key 0 0 \<in> firedText c1 \<and> callout_key 0 0 \<in> firedCallout c1
     \<and> pendingEnter c1 = [0]
     \<and> enterScene 0 (c1\<lparr>pendingEnter := []\<rparr>) = Inr c2 \<and> resumeEnter 0 c1 = c2
     \<and> text_key 0 0 \<notin> firedText c2 \<and> callout_key 0 0 \<in> firedCallout c2
     \<and> sceneNodes c2 0
         = Some \<lparr>textNodes = [\<lparr>tn_is_in = False, tn_opacity = [], tn_at = Fin 0, tn_idx = 0\<rparr>],
                 calloutNodes = [\<lparr>cn_is_in = False, cn_at = Fin 0, cn_idx = 0\<rparr>]\<rparr>
     \<and> loop (Fin 0.5) c2 = Inr c3
     \<and> sceneNodes c3 0
         = Some \<lparr>textNodes = [\<lparr>tn_is_in = True, tn_opacity = [], tn_at = Fin 0, tn_idx = 0\<rparr>],
                 calloutNodes = [\<lparr>cn_is_in = False, cn_at = Fin 0, cn_idx = 0\<rparr>]\<rparr>"
  by (simp add: opening_callout_manifest_def constructor_def core_normalizeManifest_def scene_ref_def as_scene_def start_def
      loop_def Let_def findSceneIndexAt_single active_at_def jge_def jgt_def
      jsub_def onSceneChange_def ensureSceneMounted_def scene_at_def build_text_def build_callouts_def
      tickScene_def tick_text_def tick_callouts_def resumeEnter_def enterScene_def
      hide_text_def hide_callout_def show_text_def reveal_callout_def stop_def keys_0_0)

section \<open>Sub-events in the scheduler\<close>

lemma keys_0_1: "text_key 0 (Suc 0) = ''0#1''"
  by (simp add: text_key_def show_int_def show_nat.simps [of 0] show_nat.simps [of "Suc 0"])

text \<open>
  One scene of 2 s with a title at offset 0, a lead at offset 1 and a callout at
  offset 1.
\<close>

definition early_title_manifest :: raw_manifest where
  "early_title_manifest =
     \<lparr>rm_objects = [\<lparr>rs_t = JUndefined, rs_d = JNum (Fin 2), rs_src = JStr ''01.webp'',
                       rs_text = [\<lparr>ev_html = ''title'', ev_at = Some (Fin 0)\<rparr>,
                                  \<lparr>ev_html = ''lead'', ev_at = Some (Fin 1)\<rparr>],
                       rs_callouts = [\<lparr>ev_html = ''detail'', ev_at = Some (Fin 1)\<rparr>]\<rparr>],
      rm_scenes = Some [0],
      rm_theme = ''light'', rm_duration = JUndefined\<rparr>"

text \<open>
  C8. Within one scene entry a sub-event is claimed to fire once, on the first tick whose
  local offset has reached its \<open>at\<close>. In the scheduler the first tick of a scene runs
  in the frame that mounts it, before the suspended \<open>#onSceneChange\<close> resumes with
  \<open>#enterScene\<close>. Evaluated on a one-scene manifest: the frame at 0 s fires the title
  (key \<open>0#0\<close> added, class \<open>is-in\<close> set); \<open>#enterScene\<close> then deletes the key and
  removes the class; the frame at 0.5 s, in the same visit of scene 0, fires the title a
  second time. The lead and the callout, whose offset is reached after the enter, fire
  once, in the frame at 1 s, and the frame at 1.5 s changes nothing.
\<close>

theorem text_event_fires_twice_in_one_visit:
  "\<exists>c0 c1 c2 c3 c4.
       constructor True (Some early_title_manifest) = Inr c0
     \<and> loop (Fin 0) (start c0) = Inr c1
     \<and> activeIndex c1 = 0 \<and> pendingEnter c1 = [0]
     \<and> firedText c1 = {text_key 0 0} \<and> firedCallout c1 = {}
     \<and> sceneNodes c1 0
         = Some \<lparr>textNodes = [\<lparr>tn_is_in = True, tn_opacity = [], tn_at = Fin 0, tn_idx = 0\<rparr>,
                               \<lparr>tn_is_in = False, tn_opacity = ''0'', tn_at = Fin 1, tn_idx = 1\<rparr>],
                 calloutNodes = [\<lparr>cn_is_in = False, cn_at = Fin 1, cn_idx = 0\<rparr>]\<rparr>
     \<and> resumeEnter 0 c1 = c2
     \<and> activeIndex c2 = 0 \<and> pendingEnter c2 = []
     \<and> firedText c2 = {} \<and> firedCallout c2 = {}
     \<and> sceneNodes c2 0
         = Some \<lparr>textNodes = [\<lparr>tn_is_in = False, tn_opacity = [], tn_at = Fin 0, tn_idx = 0\<rparr>,
                               \<lparr>tn_is_in = False, tn_opacity = ''0'', tn_at = Fin 1, tn_idx = 1\<rparr>],
                 calloutNodes = [\<lparr>cn_is_in = False, cn_at = Fin 1, cn_idx = 0\<rparr>]\<rparr>
     \<and> loop (Fin 0.5) c2 = Inr c3
     \<and> activeIndex c3 = 0 \<and> pendingEnter c3 = [] \<and> pendingRemoval c3 = []
     \<and> firedText c3 = {text_key 0 0} \<and> firedCallout c3 = {}
     \<and> sceneNodes c3 0
         = Some \<lparr>textNodes = [\<lparr>tn_is_in = True, tn_opacity = [], tn_at = Fin 0, tn_idx = 0\<rparr>,
                               \<lparr>tn_is_in = False, tn_opacity = ''0'', tn_at = Fin 1, tn_idx = 1\<rparr>],
                 calloutNodes = [\<lparr>cn_is_in = False, cn_at = Fin 1, cn_idx = 0\<rparr>]\<rparr>
     \<and> loop (Fin 1) c3 = Inr c4
     \<and> firedText c4 = {text_key 0 0, text_key 0 1} \<and> firedCallout c4 = {callout_key 0 0}
     \<and> sceneNodes c4 0
         = Some \<lparr>textNodes = [\<lparr>tn_is_in = True, tn_opacity = [], tn_at = Fin 0, tn_idx = 0\<rparr>,
                               \<lparr>tn_is_in = True, tn_opacity = [], tn_at = Fin 1, tn_idx = 1\<rparr>],
                 calloutNodes = [\<lparr>cn_is_in = True, cn_at = Fin 1, cn_idx = 0\<rparr>]\<rparr>
     \<and> loop (Fin 1.5) c4 = Inr (c4\<lparr>elapsed := Fin 1.5\<rparr>)"
  by (simp add: early_title_manifest_def constructor_def core_normalizeManifest_def scene_ref_def
      as_scene_def start_def
      loop_def Let_def findSceneIndexAt_single active_at_def jge_def jgt_def
      jsub_def onSceneChange_def ensureSceneMounted_def scene_at_def build_text_def build_callouts_def
      tickScene_def tick_text_def tick_callouts_def resumeEnter_def enterScene_def
      hide_text_def hide_callout_def show_text_def reveal_callout_def stop_def keys_0_0 keys_0_1
      insert_commute)

text \<open>
  A scene can also be active without being mounted. Scene 1 covers \<open>[0, 10)\<close> and
  scene 0, earlier in the array, covers \<open>[2, 2.5)\<close>: scene 1 is left at 2 s, which
  sets its removal timer, and is active again at 2.5 s, still mounted. The timer fires
  900 ms after the exit and deletes the nodes of the scene that is playing; from then on
  \<open>#tickScene\<close> returns at once, and the event due at offset 5 never fires.
\<close>

lemma findSceneIndexAt_pair:
  "findSceneIndexAt [a, b] t = (if active_at a t then 0 else if active_at b t then 1 else - 1)"
  by (simp add: findSceneIndexAt_def findSceneIndexAt_from.simps [of "[a, b]" t 0]
      findSceneIndexAt_from.simps [of "[a, b]" t "Suc 0"]
      findSceneIndexAt_from.simps [of "[a, b]" t "Suc (Suc 0)"])

definition revisited_scene_manifest :: raw_manifest where
  "revisited_scene_manifest =
     \<lparr>rm_objects = [\<lparr>rs_t = JNum (Fin 2), rs_d = JNum (Fin 0.5), rs_src = JStr ''01.webp'',
                       rs_text = [], rs_callouts = []\<rparr>,
                     \<lparr>rs_t = JNum (Fin 0), rs_d = JNum (Fin 10), rs_src = JStr ''02.webp'',
                       rs_text = [\<lparr>ev_html = ''late'', ev_at = Some (Fin 5)\<rparr>],
                       rs_callouts = []\<rparr>],
      rm_scenes = Some [0, 1],
      rm_theme = ''light'', rm_duration = JUndefined\<rparr>"

lemma stale_removal_unmounts_active_scene:
  "\<exists>c0 c1 c2 c3 c4 c5.
       constructor True (Some revisited_scene_manifest) = Inr c0
     \<and> loop (Fin 0) (start c0) = Inr c1 \<and> activeIndex c1 = 1
     \<and> loop (Fin 2) (resumeEnter 1 c1) = Inr c2
     \<and> activeIndex c2 = 0 \<and> pendingRemoval c2 = [1]
     \<and> loop (Fin 2.5) (resumeEnter 0 c2) = Inr c3
     \<and> activeIndex c3 = 1 \<and> pendingRemoval c3 = [1, 0] \<and> sceneNodes c3 1 \<noteq> None
     \<and> removalTimer 1 (resumeEnter 1 c3) = c4
     \<and> activeIndex c4 = 1 \<and> sceneNodes c4 1 = None
     \<and> loop (Fin 5) c4 = Inr c5
     \<and> activeIndex c5 = 1 \<and> sceneNodes c5 1 = None \<and> firedText c5 = {}
     \<and> loop (Fin 6) c5 = Inr (c5\<lparr>elapsed := Fin 6\<rparr>)"
  by (simp add: revisited_scene_manifest_def constructor_def core_normalizeManifest_def scene_ref_def
      as_scene_def start_def
      loop_def Let_def findSceneIndexAt_pair active_at_def jge_def jgt_def
      jsub_def onSceneChange_def ensureSceneMounted_def exitScene_def removalTimer_def
      scene_at_def build_text_def build_callouts_def
      tickScene_def tick_text_def tick_callouts_def resumeEnter_def enterScene_def
      hide_text_def hide_callout_def show_text_def reveal_callout_def stop_def)

section \<open>The preload pipeline of the loader\<close>

subsection \<open>One image: \<open>preloadImage\<close>\<close>

text \<open>
  \<open>decodeImage\<close> settles by load, by error or by its timeout. What it does on the
  \<open>k\<close>-th attempt for a URL is given from outside, as \<open>decode url k\<close>: \<open>None\<close> for a
  loaded image, or the error it rejects with.
\<close>

datatype load_error = DecodeTimeout | ImageError | FailedToPreload

text \<open>
  The retry loop of \<open>preloadImage\<close>, from attempt \<open>attempt\<close> on:
  \<open>for (attempt = 0; attempt <= retry; attempt++)\<close>, left by the first attempt that
  loads; after the loop \<open>lastErr || new Error("Failed to preload ...")\<close> is thrown.
  \<open>retry\<close> is the number the comparison reads; nothing on the way from the options of
  \<open>loadProject\<close> checks it, so it may be fractional, negative, infinite or \<open>NaN\<close>.
  With \<open>retry = Infinity\<close> and an image that never loads the loop does not end: the
  result is \<open>None\<close>, a promise that never settles.
\<close>

partial_function (option) preloadImage_from ::
    "(string \<Rightarrow> nat \<Rightarrow> load_error option) \<Rightarrow> string \<Rightarrow> jsnum \<Rightarrow> nat \<Rightarrow> load_error option
      \<Rightarrow> (load_error + bool) option" where
  "preloadImage_from decode url retry attempt lastErr =
     (if jle (Fin (real attempt)) retry
      then (case decode url attempt of
              None \<Rightarrow> Some (Inr True)
            | Some err \<Rightarrow> preloadImage_from decode url retry (Suc attempt) (Some err))
      else Some (Inl (case lastErr of Some err \<Rightarrow> err | None \<Rightarrow> FailedToPreload)))"

declare preloadImage_from.simps [code]

definition preloadImage ::
    "(string \<Rightarrow> nat \<Rightarrow> load_error option) \<Rightarrow> string \<Rightarrow> jsnum \<Rightarrow> (load_error + bool) option" where
  "preloadImage decode url retry = preloadImage_from decode url retry 0 None"

subsection \<open>The pool: \<open>preloadImages\<close>\<close>

text \<open>The promise \<open>preloadImages\<close> returns.\<close>

datatype signal = Pending | Fulfilled | Rejected load_error

text \<open>
  The variables of \<open>preloadImages\<close> (\<open>queue\<close>, \<open>active\<close>, \<open>resolved\<close>) and the
  state of its promise, with the number of calls of \<open>resolve\<close>. The other fields
  record the run and are not read by the code: the URLs whose \<open>preloadImage\<close> is
  outstanding, the URLs in the order they were started, the highest value \<open>active\<close>
  has had, and the outcome of every settled URL.
\<close>

record pipeline =
  queue :: "string list"
  active :: int
  resolved :: int
  signal :: signal
  resolveCalls :: nat
  inflight :: "string list"
  started :: "string list"
  peak :: int
  settled :: "(string \<times> (load_error + bool)) list"

text \<open>\<open>resolve(true)\<close>: only the first call settles the promise.\<close>

definition resolve :: "pipeline \<Rightarrow> pipeline" where
  "resolve p = p\<lparr>resolveCalls := Suc (resolveCalls p),
                  signal := (if signal p = Pending then Fulfilled else signal p)\<rparr>"

text \<open>
  The \<open>while\<close> loop of \<open>next\<close>: while \<open>active < concurrency\<close> and the queue is not
  empty, the first URL is shifted off the queue, \<open>active\<close> is incremented and the
  URL's \<open>preloadImage\<close> is started. \<open>concurrency\<close> is the number the comparison
  reads. It is not checked anywhere either: it may be fractional, zero, negative,
  infinite or \<open>NaN\<close>.
\<close>

function dispatch :: "jsnum \<Rightarrow> pipeline \<Rightarrow> pipeline" where
  "dispatch concurrency p =
     (if jlt (Fin (real_of_int (active p))) concurrency \<and> queue p \<noteq> []
      then dispatch concurrency
             (p\<lparr>queue := tl (queue p),
                active := active p + 1,
                inflight := inflight p @ [hd (queue p)],
                started := started p @ [hd (queue p)],
                peak := max (peak p) (active p + 1)\<rparr>)
      else p)"
  by pat_completeness auto
termination
  by (relation "measure (\<lambda>(concurrency, p). length (queue p))") auto

declare dispatch.simps [simp del]

text \<open>\<open>next()\<close>: resolve when nothing is queued and nothing is active, else dispatch.\<close>

definition next_step :: "jsnum \<Rightarrow> pipeline \<Rightarrow> pipeline" where
  "next_step concurrency p =
     (if queue p = [] \<and> active p = 0 then resolve p else dispatch concurrency p)"

text \<open>\<open>preloadImages(urls, {concurrency, ...})\<close> up to the return of its promise.\<close>

definition preloadImages :: "string list \<Rightarrow> jsnum \<Rightarrow> pipeline" where
  "preloadImages urls concurrency =
     next_step concurrency
       \<lparr>queue = urls, active = 0, resolved = 0, signal = Pending, resolveCalls = 0,
        inflight = [], started = [], peak = 0, settled = []\<rparr>"

text \<open>
  The outstanding \<open>preloadImage\<close> at position \<open>k\<close> (taken modulo the number of
  outstanding ones) settles. Its rejection is caught and logged by \<open>.catch\<close>; then
  \<open>.finally\<close> decrements \<open>active\<close>, increments \<open>resolved\<close> and calls \<open>next\<close>. With
  nothing outstanding there is no such event, and none for a \<open>preloadImage\<close> whose
  loop does not end.
\<close>

definition settle ::
    "jsnum \<Rightarrow> (string \<Rightarrow> nat \<Rightarrow> load_error option) \<Rightarrow> jsnum \<Rightarrow> nat \<Rightarrow> pipeline \<Rightarrow> pipeline" where
  "settle concurrency decode retry k p =
     (if inflight p = [] then p
      else
        (let j = k mod length (inflight p);
             url = inflight p ! j
         in case preloadImage decode url retry of
              None \<Rightarrow> p
            | Some outcome \<Rightarrow>
                next_step concurrency
                  (p\<lparr>inflight := take j (inflight p) @ drop (Suc j) (inflight p),
                     settled := settled p @ [(url, outcome)],
                     active := active p - 1,
                     resolved := resolved p + 1\<rparr>)))"

text \<open>
  A run of the pipeline: the tasks settle in the order the list \<open>picks\<close> chooses among
  the outstanding ones.
\<close>

definition run_pipeline ::
    "jsnum \<Rightarrow> (string \<Rightarrow> nat \<Rightarrow> load_error option) \<Rightarrow> jsnum \<Rightarrow> string list \<Rightarrow> nat list \<Rightarrow> pipeline" where
  "run_pipeline concurrency decode retry urls picks =
     foldl (\<lambda>p k. settle concurrency decode retry k p) (preloadImages urls concurrency) picks"

text \<open>The state before the first call of \<open>next\<close>.\<close>

definition idle_pipeline :: "string list \<Rightarrow> pipeline" where
  "idle_pipeline urls =
     \<lparr>queue = urls, active = 0, resolved = 0, signal = Pending, resolveCalls = 0,
      inflight = [], started = [], peak = 0, settled = []\<rparr>"

text \<open>
  \<open>n\<close> checks can be outstanding under the bound \<open>c\<close>: none, or the last of them was
  started when \<open>n - 1\<close> was below the bound.
\<close>

definition within_bound :: "int \<Rightarrow> jsnum \<Rightarrow> bool" where
  "within_bound n c = (n = 0 \<or> jlt (Fin (real_of_int (n - 1))) c)"

subsection \<open>The retry loop\<close>

lemma jle_Fin_down: "jle (Fin a) c \<Longrightarrow> b \<le> a \<Longrightarrow> jle (Fin b) c"
  by (cases c) auto

lemma jlt_Fin_down: "jlt (Fin a) c \<Longrightarrow> b \<le> a \<Longrightarrow> jlt (Fin b) c"
  by (cases c) auto

text \<open>An attempt within \<open>retry\<close> that loads ends the loop with success.\<close>

lemma preloadImage_from_loads:
  assumes "decode url k = None" and "jle (Fin (real k)) retry" and "a \<le> k"
  shows "preloadImage_from decode url retry a e = Some (Inr True)"
  using assms(3)
proof (induction "k - a" arbitrary: a e)
  case 0
  then have "a = k" by simp
  with assms(1,2) show ?case
    by (simp add: preloadImage_from.simps [of decode url retry k])
next
  case (Suc n)
  then have lt: "a < k" by simp
  have ok: "jle (Fin (real a)) retry"
    using assms(2) by (rule jle_Fin_down) (use lt in simp)
  show ?case
  proof (cases "decode url a")
    case None
    with ok show ?thesis by (simp add: preloadImage_from.simps [of decode url retry a])
  next
    case (Some err)
    from Suc(2) lt have "n = k - Suc a" by simp
    from Suc(1) [OF this, of "Some err"] lt
    have "preloadImage_from decode url retry (Suc a) (Some err) = Some (Inr True)" by simp
    with ok Some show ?thesis by (simp add: preloadImage_from.simps [of decode url retry a])
  qed
qed

text \<open>
  When no attempt within \<open>retry\<close> loads and \<open>retry\<close> is not \<open>+Infinity\<close>, the loop
  ends and throws.
\<close>

lemma attempts_end:
  assumes "retry \<noteq> PInf"
  shows "\<exists>n. \<forall>a. jle (Fin (real a)) retry \<longrightarrow> a < n"
proof (cases retry)
  case (Fin r)
  have "a < Suc (nat \<lceil>r\<rceil>)" if "real a \<le> r" for a
  proof -
    from that have "real a \<le> real_of_int \<lceil>r\<rceil>" by linarith
    then have "int a \<le> \<lceil>r\<rceil>" by linarith
    then show ?thesis by linarith
  qed
  with Fin show ?thesis by auto
qed (use assms in auto)

lemma preloadImage_from_fails:
  assumes "retry \<noteq> PInf"
    and "\<forall>k\<ge>a. jle (Fin (real k)) retry \<longrightarrow> decode url k \<noteq> None"
  shows "\<exists>err. preloadImage_from decode url retry a e = Some (Inl err)"
proof -
  from attempts_end [OF assms(1)] obtain n where n: "\<forall>a. jle (Fin (real a)) retry \<longrightarrow> a < n"
    by blast
  show ?thesis
    using assms(2)
  proof (induction "n - a" arbitrary: a e)
    case 0
    then have "\<not> jle (Fin (real a)) retry" using n by auto
    then show ?case by (simp add: preloadImage_from.simps [of decode url retry a])
  next
    case (Suc m)
    show ?case
    proof (cases "jle (Fin (real a)) retry")
      case False
      then show ?thesis by (simp add: preloadImage_from.simps [of decode url retry a])
    next
      case True
      with Suc(3) obtain err where err: "decode url a = Some err" by auto
      from Suc(2) have "m = n - Suc a" by simp
      moreover from Suc(3) have "\<forall>k\<ge>Suc a. jle (Fin (real k)) retry \<longrightarrow> decode url k \<noteq> None"
        by auto
      ultimately obtain err' where
        "preloadImage_from decode url retry (Suc a) (Some err) = Some (Inl err')"
        using Suc(1) [of "Suc a" "Some err"] by blast
      with True err show ?thesis
        by (simp add: preloadImage_from.simps [of decode url retry a])
    qed
  qed
qed

text \<open>What a result of the loop tells about the attempts.\<close>

lemma preloadImage_from_result:
  assumes "preloadImage_from decode url retry a e = Some y"
  shows "case y of
        Inr b \<Rightarrow> b \<and> (\<exists>k\<ge>a. jle (Fin (real k)) retry \<and> decode url k = None)
      | Inl err \<Rightarrow> retry \<noteq> PInf \<and> (\<forall>k\<ge>a. jle (Fin (real k)) retry \<longrightarrow> decode url k \<noteq> None)"
  using assms
proof (induction decode url retry a e y rule: preloadImage_from.raw_induct [rotated, consumes 1])
  case (1 f decode url retry a e y)
  show ?case
  proof (cases "jle (Fin (real a)) retry")
    case False
    then have np: "retry \<noteq> PInf" by (cases retry) auto
    have "\<not> jle (Fin (real k)) retry" if "a \<le> k" for k
      using False that jle_Fin_down [of "real k" retry "real a"] by auto
    with 1(2) False np show ?thesis by auto
  next
    case True
    show ?thesis
    proof (cases "decode url a")
      case None
      with 1(2) True show ?thesis by auto
    next
      case (Some err)
      with 1(2) True have rec: "f decode url retry (Suc a) (Some err) = Some y" by simp
      note ih = 1(1) [OF rec]
      show ?thesis
      proof (cases y)
        case (Inr b)
        with ih show ?thesis by (auto intro: Suc_leD)
      next
        case (Inl err')
        have "decode url k \<noteq> None" if "a \<le> k" "jle (Fin (real k)) retry" for k
        proof (cases "k = a")
          case True
          with Some show ?thesis by simp
        next
          case False
          with that have "Suc a \<le> k" by simp
          with ih Inl that(2) show ?thesis by simp
        qed
        with ih Inl show ?thesis by simp
      qed
    qed
  qed
qed

lemma preloadImage_loaded:
  "(preloadImage decode url retry = Some (Inr True))
     = (\<exists>k. jle (Fin (real k)) retry \<and> decode url k = None)"
proof
  assume "preloadImage decode url retry = Some (Inr True)"
  from preloadImage_from_result [OF this [unfolded preloadImage_def]]
  show "\<exists>k. jle (Fin (real k)) retry \<and> decode url k = None" by auto
next
  assume "\<exists>k. jle (Fin (real k)) retry \<and> decode url k = None"
  then obtain k where "decode url k = None" "jle (Fin (real k)) retry" by blast
  then show "preloadImage decode url retry = Some (Inr True)"
    unfolding preloadImage_def by (rule preloadImage_from_loads) simp
qed

lemma preloadImage_failed:
  "(\<exists>err. preloadImage decode url retry = Some (Inl err))
     = (retry \<noteq> PInf \<and> (\<forall>k. jle (Fin (real k)) retry \<longrightarrow> decode url k \<noteq> None))"
proof
  assume "\<exists>err. preloadImage decode url retry = Some (Inl err)"
  then obtain err where "preloadImage_from decode url retry 0 None = Some (Inl err)"
    by (auto simp: preloadImage_def)
  from preloadImage_from_result [OF this]
  show "retry \<noteq> PInf \<and> (\<forall>k. jle (Fin (real k)) retry \<longrightarrow> decode url k \<noteq> None)" by simp
next
  assume "retry \<noteq> PInf \<and> (\<forall>k. jle (Fin (real k)) retry \<longrightarrow> decode url k \<noteq> None)"
  then show "\<exists>err. preloadImage decode url retry = Some (Inl err)"
    unfolding preloadImage_def by (intro preloadImage_from_fails) simp_all
qed

lemma preloadImage_never:
  "(preloadImage decode url retry = None) = (retry = PInf \<and> (\<forall>k. decode url k \<noteq> None))"
proof
  assume never: "preloadImage decode url retry = None"
  have loads: False if "jle (Fin (real k)) retry" "decode url k = None" for k
  proof -
    from that have "\<exists>k. jle (Fin (real k)) retry \<and> decode url k = None" by blast
    then have "preloadImage decode url retry = Some (Inr True)"
      by (rule preloadImage_loaded [THEN iffD2])
    with never show False by simp
  qed
  have inf: "retry = PInf"
  proof (rule ccontr)
    assume np: "retry \<noteq> PInf"
    from loads have "\<forall>k. jle (Fin (real k)) retry \<longrightarrow> decode url k \<noteq> None" by blast
    with np have "\<exists>err. preloadImage decode url retry = Some (Inl err)"
      by (intro preloadImage_failed [THEN iffD2] conjI)
    with never show False by simp
  qed
  have "decode url k \<noteq> None" for k
    using loads [of k] inf by auto
  with inf show "retry = PInf \<and> (\<forall>k. decode url k \<noteq> None)" by simp
next
  assume a: "retry = PInf \<and> (\<forall>k. decode url k \<noteq> None)"
  show "preloadImage decode url retry = None"
  proof (cases "preloadImage decode url retry")
    case None
    then show ?thesis .
  next
    case (Some y)
    from preloadImage_from_result [OF this [unfolded preloadImage_def]] a
    show ?thesis by (cases y) auto
  qed
qed

text \<open>When the loop throws, it throws the error of its last attempt.\<close>

lemma preloadImage_from_error:
  assumes "preloadImage_from decode url retry a e = Some y" and "y = Inl err"
  shows "(\<not> jle (Fin (real a)) retry \<and> err = (case e of Some x \<Rightarrow> x | None \<Rightarrow> FailedToPreload))
     \<or> (\<exists>k\<ge>a. jle (Fin (real k)) retry \<and> \<not> jle (Fin (real (Suc k))) retry
              \<and> decode url k = Some err)"
  using assms
proof (induction decode url retry a e y rule: preloadImage_from.raw_induct [rotated, consumes 1])
  case (1 f decode url retry a e y)
  show ?case
  proof (cases "jle (Fin (real a)) retry")
    case False
    with 1(2,3) show ?thesis by auto
  next
    case True
    show ?thesis
    proof (cases "decode url a")
      case None
      with 1(2,3) True show ?thesis by simp
    next
      case (Some x)
      with 1(2) True have rec: "f decode url retry (Suc a) (Some x) = Some y" by simp
      from 1(1) [OF rec 1(3)] show ?thesis
      proof
        assume "\<not> jle (Fin (real (Suc a))) retry
                \<and> err = (case Some x of Some x \<Rightarrow> x | None \<Rightarrow> FailedToPreload)"
        with True Some have "a \<le> a \<and> jle (Fin (real a)) retry
            \<and> \<not> jle (Fin (real (Suc a))) retry \<and> decode url a = Some err" by simp
        then show ?thesis by blast
      next
        assume "\<exists>k\<ge>Suc a. jle (Fin (real k)) retry \<and> \<not> jle (Fin (real (Suc k))) retry
                  \<and> decode url k = Some err"
        then obtain k where "Suc a \<le> k" "jle (Fin (real k)) retry"
          "\<not> jle (Fin (real (Suc k))) retry" "decode url k = Some err" by blast
        then have "a \<le> k \<and> jle (Fin (real k)) retry
            \<and> \<not> jle (Fin (real (Suc k))) retry \<and> decode url k = Some err" by simp
        then show ?thesis by blast
      qed
    qed
  qed
qed

subsection \<open>Invariants of the pool\<close>

text \<open>What holds of the pool in every state of every run, for any bound.\<close>

definition pool_inv ::
    "string list \<Rightarrow> jsnum \<Rightarrow> (string \<Rightarrow> nat \<Rightarrow> load_error option) \<Rightarrow> jsnum \<Rightarrow> pipeline \<Rightarrow> bool" where
  "pool_inv urls concurrency decode retry p =
     (active p = int (length (inflight p))
      \<and> active p \<le> peak p
      \<and> within_bound (active p) concurrency \<and> within_bound (peak p) concurrency
      \<and> started p @ queue p = urls
      \<and> mset (map fst (settled p)) + mset (inflight p) + mset (queue p) = mset urls
      \<and> (\<forall>(u, r)\<in>set (settled p). preloadImage decode u retry = Some r)
      \<and> (resolveCalls p = 0 \<and> signal p = Pending
          \<or> resolveCalls p = 1 \<and> signal p = Fulfilled \<and> queue p = [] \<and> inflight p = []))"

lemma pool_invD:
  assumes "pool_inv urls c decode retry p"
  shows "active p = int (length (inflight p))" and "active p \<le> peak p"
    and "within_bound (active p) c" and "within_bound (peak p) c"
    and "started p @ queue p = urls"
    and "mset (map fst (settled p)) + mset (inflight p) + mset (queue p) = mset urls"
    and "\<forall>(u, r)\<in>set (settled p). preloadImage decode u retry = Some r"
    and "resolveCalls p = 0 \<and> signal p = Pending
          \<or> resolveCalls p = 1 \<and> signal p = Fulfilled \<and> queue p = [] \<and> inflight p = []"
  using assms unfolding pool_inv_def by blast+

lemma within_bound_down:
  "within_bound n c \<Longrightarrow> 0 \<le> m \<Longrightarrow> m \<le> n \<Longrightarrow> within_bound m c"
proof (cases "m = 0")
  case True
  then show ?thesis by (simp add: within_bound_def)
next
  case False
  assume a: "within_bound n c" "0 \<le> m" "m \<le> n"
  with False have "n \<noteq> 0" by simp
  with a have "jlt (Fin (real_of_int (n - 1))) c" by (simp add: within_bound_def)
  then have "jlt (Fin (real_of_int (m - 1))) c"
    by (rule jlt_Fin_down) (use a in simp)
  then show ?thesis by (simp add: within_bound_def)
qed

lemma dispatch_stop:
  "\<not> (jlt (Fin (real_of_int (active p))) c \<and> queue p \<noteq> []) \<Longrightarrow> dispatch c p = p"
  by (subst dispatch.simps) (rule if_not_P)

lemma dispatch_go:
  "jlt (Fin (real_of_int (active p))) c \<Longrightarrow> queue p = u # rest \<Longrightarrow>
     dispatch c p = dispatch c (p\<lparr>queue := rest, active := active p + 1,
               inflight := inflight p @ [u], started := started p @ [u],
               peak := max (peak p) (active p + 1)\<rparr>)"
  by (subst dispatch.simps) simp

lemma dispatch_keeps:
  "signal (dispatch c p) = signal p \<and> resolveCalls (dispatch c p) = resolveCalls p
   \<and> settled (dispatch c p) = settled p \<and> resolved (dispatch c p) = resolved p"
proof (induction c p rule: dispatch.induct)
  case (1 c p)
  show ?case
  proof (cases "jlt (Fin (real_of_int (active p))) c \<and> queue p \<noteq> []")
    case True
    then obtain u rest where q: "queue p = u # rest" by (cases "queue p") auto
    from True q 1 show ?thesis by (simp add: dispatch_go [of p c u rest])
  next
    case False
    from dispatch_stop [OF this] show ?thesis by simp
  qed
qed

lemma dispatch_counts:
  "active p = int (length (inflight p)) \<Longrightarrow> active p \<le> peak p \<Longrightarrow>
   within_bound (active p) c \<Longrightarrow> within_bound (peak p) c \<Longrightarrow>
     active (dispatch c p) = int (length (inflight (dispatch c p)))
     \<and> active (dispatch c p) \<le> peak (dispatch c p)
     \<and> within_bound (active (dispatch c p)) c \<and> within_bound (peak (dispatch c p)) c
     \<and> started (dispatch c p) @ queue (dispatch c p) = started p @ queue p
     \<and> mset (inflight (dispatch c p)) + mset (queue (dispatch c p)) = mset (inflight p) + mset (queue p)
     \<and> (queue (dispatch c p) = [] \<or> \<not> jlt (Fin (real_of_int (active (dispatch c p)))) c)"
proof (induction c p rule: dispatch.induct)
  case (1 c p)
  show ?case
  proof (cases "jlt (Fin (real_of_int (active p))) c \<and> queue p \<noteq> []")
    case True
    then obtain u rest where q: "queue p = u # rest" by (cases "queue p") auto
    let ?q = "p\<lparr>queue := rest, active := active p + 1,
               inflight := inflight p @ [u], started := started p @ [u],
               peak := max (peak p) (active p + 1)\<rparr>"
    have same: "p\<lparr>queue := tl (queue p), active := active p + 1,
               inflight := inflight p @ [hd (queue p)], started := started p @ [hd (queue p)],
               peak := max (peak p) (active p + 1)\<rparr> = ?q"
      using q by simp
    have wa: "within_bound (active p + 1) c"
      using True by (simp add: within_bound_def)
    have wp: "within_bound (max (peak p) (active p + 1)) c"
      using wa "1.prems"(4) by (simp add: max_def)
    have ih: "active (dispatch c ?q) = int (length (inflight (dispatch c ?q)))
     \<and> active (dispatch c ?q) \<le> peak (dispatch c ?q)
     \<and> within_bound (active (dispatch c ?q)) c \<and> within_bound (peak (dispatch c ?q)) c
     \<and> started (dispatch c ?q) @ queue (dispatch c ?q) = started ?q @ queue ?q
     \<and> mset (inflight (dispatch c ?q)) + mset (queue (dispatch c ?q)) = mset (inflight ?q) + mset (queue ?q)
     \<and> (queue (dispatch c ?q) = [] \<or> \<not> jlt (Fin (real_of_int (active (dispatch c ?q)))) c)"
      by (rule "1.IH" [OF True, unfolded same]) (use "1.prems" wa wp in simp_all)
    have step: "dispatch c p = dispatch c ?q"
      using True q by (simp add: dispatch_go)
    have a: "started ?q @ queue ?q = started p @ queue p" using q by simp
    have b: "mset (inflight ?q) + mset (queue ?q) = mset (inflight p) + mset (queue p)"
      using q by simp
    from ih show ?thesis unfolding step a b .
  next
    case False
    then have "dispatch c p = p" by (rule dispatch_stop)
    with "1.prems" False show ?thesis by auto
  qed
qed

lemma pool_inv_next_step:
  assumes "active p = int (length (inflight p))" and "active p \<le> peak p"
    and "within_bound (active p) c" and "within_bound (peak p) c"
    and "started p @ queue p = urls"
    and "mset (map fst (settled p)) + mset (inflight p) + mset (queue p) = mset urls"
    and "\<forall>(u, r)\<in>set (settled p). preloadImage decode u retry = Some r"
    and "resolveCalls p = 0" and "signal p = Pending"
  shows "pool_inv urls c decode retry (next_step c p)"
proof (cases "queue p = [] \<and> active p = 0")
  case True
  with assms have "inflight p = []" by simp
  with True assms show ?thesis
    by (simp add: next_step_def resolve_def pool_inv_def)
next
  case False
  have ns: "next_step c p = dispatch c p"
    unfolding next_step_def using False by (rule if_not_P)
  note d = dispatch_counts [OF assms(1-4)]
  note k = dispatch_keeps [of c p]
  from d assms(5) have st: "started (dispatch c p) @ queue (dispatch c p) = urls" by simp
  from d assms(6)
  have ms: "mset (map fst (settled (dispatch c p))) + mset (inflight (dispatch c p))
        + mset (queue (dispatch c p)) = mset urls"
    by (simp add: k add.assoc)
  from assms(7) have se: "\<forall>(u, r)\<in>set (settled (dispatch c p)). preloadImage decode u retry = Some r"
    by (simp add: k)
  from assms(8,9) have pe: "resolveCalls (dispatch c p) = 0 \<and> signal (dispatch c p) = Pending"
    by (simp add: k)
  show ?thesis
    unfolding ns pool_inv_def
    by (intro conjI disjI1) (use d st ms se pe in blast)+
qed

lemma pool_inv_start: "pool_inv urls c decode retry (preloadImages urls c)"
  unfolding preloadImages_def by (rule pool_inv_next_step) (simp_all add: within_bound_def)

lemma mset_remove_nth:
  "j < length xs \<Longrightarrow> add_mset (xs ! j) (mset (take j xs @ drop (Suc j) xs)) = mset xs"
proof -
  assume "j < length xs"
  then have "xs = take j xs @ xs ! j # drop (Suc j) xs" by (rule id_take_nth_drop)
  then have "mset xs = mset (take j xs @ xs ! j # drop (Suc j) xs)" by simp
  then show ?thesis by simp
qed

text \<open>The two cases of a settle event that changes the state.\<close>

lemma settle_idle:
  "inflight p = [] \<or> preloadImage decode (inflight p ! (k mod length (inflight p))) retry = None
     \<Longrightarrow> settle c decode retry k p = p"
  by (auto simp: settle_def Let_def)

lemma settle_step:
  assumes "inflight p \<noteq> []" and "j = k mod length (inflight p)"
    and "preloadImage decode (inflight p ! j) retry = Some outcome"
  shows "settle c decode retry k p
     = next_step c (p\<lparr>inflight := take j (inflight p) @ drop (Suc j) (inflight p),
                       settled := settled p @ [(inflight p ! j, outcome)],
                       active := active p - 1, resolved := resolved p + 1\<rparr>)"
  using assms by (simp add: settle_def Let_def)

lemma pool_inv_settle:
  assumes "pool_inv urls c decode retry p"
  shows "pool_inv urls c decode retry (settle c decode retry k p)"
proof (cases "inflight p = []
    \<or> preloadImage decode (inflight p ! (k mod length (inflight p))) retry = None")
  case True
  from settle_idle [OF this] assms show ?thesis by simp
next
  case False
  define j where "j = k mod length (inflight p)"
  from False have ne: "inflight p \<noteq> []" by simp
  then have j: "j < length (inflight p)" by (simp add: j_def)
  from False obtain outcome where oc: "preloadImage decode (inflight p ! j) retry = Some outcome"
    by (auto simp: j_def)
  let ?p1 = "p\<lparr>inflight := take j (inflight p) @ drop (Suc j) (inflight p),
                 settled := settled p @ [(inflight p ! j, outcome)],
                 active := active p - 1, resolved := resolved p + 1\<rparr>"
  have run: "settle c decode retry k p = next_step c ?p1"
    using ne j_def oc by (rule settle_step)
  note inv = pool_invD [OF assms]
  from inv(8) ne have pend: "resolveCalls p = 0" "signal p = Pending"
    by auto
  from inv(1) j have pos: "1 \<le> active p" by simp
  have "pool_inv urls c decode retry (next_step c ?p1)"
  proof (rule pool_inv_next_step)
    have "length (take j (inflight p) @ drop (Suc j) (inflight p)) = length (inflight p) - 1"
      using j by simp
    moreover have "int (length (inflight p) - 1) = int (length (inflight p)) - 1"
      using j by (simp add: of_nat_diff)
    ultimately show "active ?p1 = int (length (inflight ?p1))"
      using inv(1) by simp
    from inv(2) show "active ?p1 \<le> peak ?p1" by simp
    have "within_bound (active p - 1) c"
      by (rule within_bound_down [OF inv(3)]) (use pos in simp_all)
    then show "within_bound (active ?p1) c" by simp
    from inv(4) show "within_bound (peak ?p1) c" by simp
    from inv(5) show "started ?p1 @ queue ?p1 = urls" by simp
    from inv(6) have "mset (map fst (settled p))
        + add_mset (inflight p ! j) (mset (take j (inflight p) @ drop (Suc j) (inflight p)))
        + mset (queue p) = mset urls"
      by (simp only: mset_remove_nth [OF j])
    then show "mset (map fst (settled ?p1)) + mset (inflight ?p1) + mset (queue ?p1) = mset urls"
      by simp
    from inv(7) oc show "\<forall>(u, r)\<in>set (settled ?p1). preloadImage decode u retry = Some r"
      by auto
    show "resolveCalls ?p1 = 0" "signal ?p1 = Pending" using pend by simp_all
  qed
  with run show ?thesis by simp
qed

lemma pool_inv_run: "pool_inv urls c decode retry (run_pipeline c decode retry urls picks)"
proof (induction picks rule: rev_induct)
  case Nil
  show ?case by (simp add: run_pipeline_def pool_inv_start)
next
  case (snoc k picks)
  then show ?case by (simp add: run_pipeline_def pool_inv_settle)
qed

text \<open>With a bound above 0 the pool never idles while URLs are queued.\<close>

definition pool_live :: "pipeline \<Rightarrow> bool" where
  "pool_live p =
     ((queue p \<noteq> [] \<longrightarrow> inflight p \<noteq> [])
      \<and> (queue p = [] \<and> inflight p = [] \<longrightarrow> resolveCalls p = 1))"

lemma pool_live_next_step:
  assumes "jlt (Fin 0) c" and "active p = int (length (inflight p))" and "active p \<le> peak p"
    and "within_bound (active p) c" and "within_bound (peak p) c" and "resolveCalls p = 0"
  shows "pool_live (next_step c p)"
proof (cases "queue p = [] \<and> active p = 0")
  case True
  then show ?thesis
    using assms by (simp add: next_step_def resolve_def pool_live_def)
next
  case False
  have ns: "next_step c p = dispatch c p"
    unfolding next_step_def using False by (rule if_not_P)
  note d = dispatch_counts [OF assms(2-5)]
  have a: "inflight (dispatch c p) \<noteq> []" if "queue (dispatch c p) \<noteq> []"
  proof
    assume "inflight (dispatch c p) = []"
    with d have "active (dispatch c p) = 0" by simp
    moreover from d that have "\<not> jlt (Fin (real_of_int (active (dispatch c p)))) c" by blast
    ultimately show False using assms(1) by simp
  qed
  have b: "\<not> (queue (dispatch c p) = [] \<and> inflight (dispatch c p) = [])"
  proof
    assume "queue (dispatch c p) = [] \<and> inflight (dispatch c p) = []"
    with d have "mset (inflight p) + mset (queue p) = {#}" by simp
    then have "inflight p = [] \<and> queue p = []" by simp
    with assms(2) False show False by simp
  qed
  from a b show ?thesis unfolding ns pool_live_def by blast
qed

lemma pool_live_start: "jlt (Fin 0) c \<Longrightarrow> pool_live (preloadImages urls c)"
  unfolding preloadImages_def by (rule pool_live_next_step) (simp_all add: within_bound_def)

lemma pool_live_settle:
  assumes "jlt (Fin 0) c" and "pool_inv urls c decode retry p" and "pool_live p"
  shows "pool_live (settle c decode retry k p)"
proof (cases "inflight p = []
    \<or> preloadImage decode (inflight p ! (k mod length (inflight p))) retry = None")
  case True
  from settle_idle [OF this] assms(3) show ?thesis by simp
next
  case False
  define j where "j = k mod length (inflight p)"
  from False have ne: "inflight p \<noteq> []" by simp
  then have j: "j < length (inflight p)" by (simp add: j_def)
  from False obtain outcome where oc: "preloadImage decode (inflight p ! j) retry = Some outcome"
    by (auto simp: j_def)
  let ?p1 = "p\<lparr>inflight := take j (inflight p) @ drop (Suc j) (inflight p),
                 settled := settled p @ [(inflight p ! j, outcome)],
                 active := active p - 1, resolved := resolved p + 1\<rparr>"
  have run: "settle c decode retry k p = next_step c ?p1"
    using ne j_def oc by (rule settle_step)
  note inv = pool_invD [OF assms(2)]
  from inv(1) j have pos: "1 \<le> active p" by simp
  have "pool_live (next_step c ?p1)"
  proof (rule pool_live_next_step [OF assms(1)])
    have "length (take j (inflight p) @ drop (Suc j) (inflight p)) = length (inflight p) - 1"
      using j by simp
    moreover have "int (length (inflight p) - 1) = int (length (inflight p)) - 1"
      using j by (simp add: of_nat_diff)
    ultimately show "active ?p1 = int (length (inflight ?p1))"
      using inv(1) by simp
    from inv(2) show "active ?p1 \<le> peak ?p1" by simp
    from inv(4) show "within_bound (peak ?p1) c" by simp
    have "within_bound (active p - 1) c"
      by (rule within_bound_down [OF inv(3)]) (use pos in simp_all)
    then show "within_bound (active ?p1) c" by simp
    from inv(8) ne show "resolveCalls ?p1 = 0" by auto
  qed
  with run show ?thesis by simp
qed

lemma pool_live_run:
  "jlt (Fin 0) c \<Longrightarrow> pool_live (run_pipeline c decode retry urls picks)"
proof (induction picks rule: rev_induct)
  case Nil
  then show ?case by (simp add: run_pipeline_def pool_live_start)
next
  case (snoc k picks)
  from snoc.prems snoc.IH pool_inv_run [of urls c decode retry picks]
  have "pool_live (settle c decode retry k (run_pipeline c decode retry urls picks))"
    by (intro pool_live_settle) simp_all
  then show ?case by (simp add: run_pipeline_def)
qed

lemma next_step_settled: "settled (next_step c q) = settled q"
  using dispatch_keeps [of c q] by (simp add: next_step_def resolve_def)

lemma settle_count:
  "length (settled (settle c decode retry k p))
     = (if inflight p = []
           \<or> preloadImage decode (inflight p ! (k mod length (inflight p))) retry = None
        then length (settled p) else Suc (length (settled p)))"
proof (cases "inflight p = []
    \<or> preloadImage decode (inflight p ! (k mod length (inflight p))) retry = None")
  case True
  from settle_idle [OF this] True show ?thesis by simp
next
  case False
  then obtain outcome where
    "preloadImage decode (inflight p ! (k mod length (inflight p))) retry = Some outcome"
    by auto
  with False settle_step [of p "k mod length (inflight p)" k decode retry outcome c]
  show ?thesis by (simp add: next_step_settled)
qed

lemma pool_sizes:
  assumes "pool_inv urls c decode retry p"
  shows "length (settled p) + length (inflight p) + length (queue p) = length urls"
proof -
  from assms have "mset (map fst (settled p)) + mset (inflight p) + mset (queue p) = mset urls"
    by (simp add: pool_inv_def)
  then have "size (mset (map fst (settled p)) + mset (inflight p) + mset (queue p)) = size (mset urls)"
    by simp
  then show ?thesis by simp
qed

lemma pool_inflight_urls:
  assumes "pool_inv urls c decode retry p"
  shows "set (inflight p) \<subseteq> set urls"
proof -
  from assms have "mset (map fst (settled p)) + mset (inflight p) + mset (queue p) = mset urls"
    by (simp add: pool_inv_def)
  then have "set_mset (mset (map fst (settled p)) + mset (inflight p) + mset (queue p))
      = set_mset (mset urls)"
    by simp
  then show ?thesis by auto
qed

lemma run_settled_count:
  assumes "jlt (Fin 0) c" and "\<forall>u\<in>set urls. preloadImage decode u retry \<noteq> None"
  shows "length (settled (run_pipeline c decode retry urls picks)) = min (length picks) (length urls)"
proof (induction picks rule: rev_induct)
  case Nil
  show ?case by (simp add: run_pipeline_def preloadImages_def next_step_settled)
next
  case (snoc k picks)
  let ?p = "run_pipeline c decode retry urls picks"
  note inv = pool_inv_run [of urls c decode retry picks]
  note live = pool_live_run [OF assms(1), of decode retry urls picks]
  note sz = pool_sizes [OF inv]
  have run: "run_pipeline c decode retry urls (picks @ [k]) = settle c decode retry k ?p"
    by (simp add: run_pipeline_def)
  show ?case
  proof (cases "inflight ?p = []")
    case True
    with live have "queue ?p = []" by (auto simp: pool_live_def)
    with True sz have "length (settled ?p) = length urls" by simp
    with snoc True show ?thesis unfolding run by (simp add: settle_count)
  next
    case False
    then have "inflight ?p ! (k mod length (inflight ?p)) \<in> set (inflight ?p)" by simp
    with pool_inflight_urls [OF inv] assms(2)
    have "preloadImage decode (inflight ?p ! (k mod length (inflight ?p))) retry \<noteq> None"
      by blast
    moreover from False sz have "length (settled ?p) < length urls"
      by (cases "inflight ?p") auto
    ultimately show ?thesis
      using snoc False unfolding run by (simp add: settle_count)
  qed
qed

text \<open>With a bound that is not above 0 nothing is ever started.\<close>

lemma run_never_starts:
  assumes "\<not> jlt (Fin 0) c" and "urls \<noteq> []"
  shows "run_pipeline c decode retry urls picks = idle_pipeline urls"
proof (induction picks rule: rev_induct)
  case Nil
  have "preloadImages urls c = dispatch c (idle_pipeline urls)"
    using assms(2) by (simp add: preloadImages_def next_step_def idle_pipeline_def)
  also have "\<dots> = idle_pipeline urls"
    using assms(1) by (intro dispatch_stop) (simp add: idle_pipeline_def)
  finally show ?case by (simp add: run_pipeline_def)
next
  case (snoc k picks)
  have "settle c decode retry k (idle_pipeline urls) = idle_pipeline urls"
    by (intro settle_idle) (simp add: idle_pipeline_def)
  with snoc show ?case by (simp add: run_pipeline_def)
qed

text \<open>An empty list resolves in the first call of \<open>next\<close>.\<close>

lemma run_empty:
  "run_pipeline c decode retry [] picks = resolve (idle_pipeline [])"
proof (induction picks rule: rev_induct)
  case Nil
  show ?case by (simp add: run_pipeline_def preloadImages_def next_step_def idle_pipeline_def)
next
  case (snoc k picks)
  have "settle c decode retry k (resolve (idle_pipeline [])) = resolve (idle_pipeline [])"
    by (intro settle_idle) (simp add: idle_pipeline_def resolve_def)
  with snoc show ?case by (simp add: run_pipeline_def)
qed

subsection \<open>The bound on the active count\<close>

text \<open>
  Three and five URLs; of the five the third never loads. A decoder that always loads.
\<close>

definition three_urls :: "string list" where
  "three_urls = [''1.webp'', ''2.webp'', ''3.webp'']"

definition five_urls :: "string list" where
  "five_urls = [''1.webp'', ''2.webp'', ''3.webp'', ''4.webp'', ''5.webp'']"

definition third_broken :: "string \<Rightarrow> nat \<Rightarrow> load_error option" where
  "third_broken url k = (if url = ''3.webp'' then Some ImageError else None)"

definition always_loads :: "string \<Rightarrow> nat \<Rightarrow> load_error option" where
  "always_loads url k = None"

text \<open>
  C7 (as stated): the active count never exceeds the configured concurrency bound. The
  bound is whatever number the caller configured. With \<open>concurrency: 2.5\<close> the loop
  starts a third check, because \<open>2 < 2.5\<close>: three checks are in flight against a bound
  of 2.5. With \<open>concurrency: -1\<close> nothing is started, and the count 0 is above the
  bound from the outset.
\<close>

theorem fractional_bound_exceeded_counterexample:
  "active (preloadImages three_urls (Fin 2.5)) = 3
   \<and> inflight (preloadImages three_urls (Fin 2.5)) = three_urls
   \<and> \<not> jle (Fin (real_of_int (active (preloadImages three_urls (Fin 2.5))))) (Fin 2.5)
   \<and> active (preloadImages three_urls (Fin (- 1))) = 0
   \<and> \<not> jle (Fin (real_of_int (active (preloadImages three_urls (Fin (- 1)))))) (Fin (- 1))"
  by code_simp

text \<open>
  C7 (amended). In every state of every run, for every bound: the active count equals the
  number of outstanding readiness checks and is never negative; a dispatch that starts
  anything found the active count strictly below the bound, so whenever checks are
  outstanding, the count less one is strictly below the bound, and this held of the
  highest value the count has had (\<open>peak\<close>). Hence for a bound that is a whole number
  \<open>\<ge> 0\<close> the active count never exceeds the bound; for any finite bound \<open>x\<close> it stays
  below \<open>max x 0 + 1\<close>; and for a bound that is not above 0 (zero, negative or
  \<open>NaN\<close>) it stays 0. The URLs started so far, in the order they were started, followed
  by the queue, are the given URLs: they are taken from the front of the queue in order.
\<close>

theorem pool_bounded_fifo:
  "0 \<le> active (run_pipeline c decode retry urls picks)
   \<and> active (run_pipeline c decode retry urls picks)
       = int (length (inflight (run_pipeline c decode retry urls picks)))
   \<and> active (run_pipeline c decode retry urls picks) \<le> peak (run_pipeline c decode retry urls picks)
   \<and> within_bound (active (run_pipeline c decode retry urls picks)) c
   \<and> within_bound (peak (run_pipeline c decode retry urls picks)) c
   \<and> (c = Fin (real_of_int n) \<and> 0 \<le> n \<longrightarrow>
        active (run_pipeline c decode retry urls picks) \<le> n
        \<and> peak (run_pipeline c decode retry urls picks) \<le> n)
   \<and> (c = Fin x \<longrightarrow> real_of_int (peak (run_pipeline c decode retry urls picks)) < max x 0 + 1)
   \<and> (\<not> jlt (Fin 0) c \<longrightarrow>
        active (run_pipeline c decode retry urls picks) = 0
        \<and> peak (run_pipeline c decode retry urls picks) = 0)
   \<and> started (run_pipeline c decode retry urls picks) @ queue (run_pipeline c decode retry urls picks)
       = urls
   \<and> (dispatch c p = p \<or> jlt (Fin (real_of_int (active p))) c)"
proof -
  let ?p = "run_pipeline c decode retry urls picks"
  note inv = pool_invD [OF pool_inv_run [of urls c decode retry picks]]
  from inv(1) have nonneg: "0 \<le> active ?p" by simp
  with inv(2) have pk: "0 \<le> peak ?p" by simp
  have whole: "active ?p \<le> n \<and> peak ?p \<le> n" if "c = Fin (real_of_int n) \<and> 0 \<le> n"
  proof -
    have "peak ?p \<le> n"
    proof (cases "peak ?p = 0")
      case True
      with that show ?thesis by simp
    next
      case False
      with inv(4) that have "real_of_int (peak ?p - 1) < real_of_int n"
        by (simp add: within_bound_def)
      then show ?thesis by linarith
    qed
    with inv(2) show ?thesis by simp
  qed
  have frac: "real_of_int (peak ?p) < max x 0 + 1" if "c = Fin x"
  proof (cases "peak ?p = 0")
    case True
    then show ?thesis by simp
  next
    case False
    with inv(4) that have "real_of_int (peak ?p - 1) < x"
      by (simp add: within_bound_def)
    then show ?thesis by simp
  qed
  have dead: "active ?p = 0 \<and> peak ?p = 0" if "\<not> jlt (Fin 0) c"
  proof -
    have "peak ?p = 0"
    proof (rule ccontr)
      assume ne: "peak ?p \<noteq> 0"
      with inv(4) have "jlt (Fin (real_of_int (peak ?p - 1))) c"
        by (simp add: within_bound_def)
      then have "jlt (Fin 0) c"
        by (rule jlt_Fin_down) (use pk ne in simp)
      with that show False by simp
    qed
    with inv(2) nonneg show ?thesis by simp
  qed
  have disp: "dispatch c p = p \<or> jlt (Fin (real_of_int (active p))) c"
    using dispatch_stop [of p c] by blast
  from nonneg inv(1) inv(2) inv(3) inv(4) whole frac dead inv(5) disp show ?thesis
    by blast
qed

theorem pool_bounded_fifo_witness:
  "peak (run_pipeline (Fin 2) third_broken (Fin 1) five_urls [1, 0]) = 2
   \<and> active (run_pipeline (Fin 2) third_broken (Fin 1) five_urls [1, 0]) \<le> 2
   \<and> peak (run_pipeline (Fin 2.5) third_broken (Fin 1) five_urls [1, 0]) = 3
   \<and> real_of_int (peak (run_pipeline (Fin 2.5) third_broken (Fin 1) five_urls [1, 0])) < 2.5 + 1
   \<and> active (run_pipeline NaN third_broken (Fin 1) five_urls [1, 0]) = 0
   \<and> peak (run_pipeline (Fin 0) third_broken (Fin 1) five_urls [1, 0]) = 0"
proof -
  have a: "peak (run_pipeline (Fin 2) third_broken (Fin 1) five_urls [1, 0]) = 2"
    and b: "peak (run_pipeline (Fin 2.5) third_broken (Fin 1) five_urls [1, 0]) = 3"
    by code_simp+
  have "Fin 2 = Fin (real_of_int 2) \<and> (0::int) \<le> 2" by simp
  with pool_bounded_fifo [where c = "Fin 2" and n = 2 and decode = third_broken
      and retry = "Fin 1" and urls = five_urls and picks = "[1, 0]"]
  have c: "active (run_pipeline (Fin 2) third_broken (Fin 1) five_urls [1, 0]) \<le> 2"
    by blast
  from pool_bounded_fifo [where c = "Fin 2.5" and x = "2.5" and decode = third_broken
      and retry = "Fin 1" and urls = five_urls and picks = "[1, 0]"]
  have d: "real_of_int (peak (run_pipeline (Fin 2.5) third_broken (Fin 1) five_urls [1, 0]))
      < 2.5 + 1"
    by simp
  have "\<not> jlt (Fin 0) NaN" and "\<not> jlt (Fin 0) (Fin 0)" by simp_all
  with pool_bounded_fifo [where c = NaN and decode = third_broken
      and retry = "Fin 1" and urls = five_urls and picks = "[1, 0]"]
    pool_bounded_fifo [where c = "Fin 0" and decode = third_broken
      and retry = "Fin 1" and urls = five_urls and picks = "[1, 0]"]
  have e: "active (run_pipeline NaN third_broken (Fin 1) five_urls [1, 0]) = 0"
    and f: "peak (run_pipeline (Fin 0) third_broken (Fin 1) five_urls [1, 0]) = 0"
    by blast+
  from a b c d e f show ?thesis by simp
qed

subsection \<open>The completion signal\<close>

text \<open>
  C6 (as stated): for every sequence of URLs the completion signal resolves exactly once.
  With a concurrency bound of 0 and one URL, \<open>next\<close> neither resolves nor starts
  anything: nothing is outstanding, no callback will ever run, and the signal stays
  pending.
\<close>

theorem zero_concurrency_never_resolves_counterexample:
  "preloadImages [''a.webp''] (Fin 0)
     = \<lparr>queue = [''a.webp''], active = 0, resolved = 0, signal = Pending, resolveCalls = 0,
        inflight = [], started = [], peak = 0, settled = []\<rparr>
   \<and> run_pipeline (Fin 0) always_loads (Fin 1) [''a.webp''] [0, 0, 0]
     = \<lparr>queue = [''a.webp''], active = 0, resolved = 0, signal = Pending, resolveCalls = 0,
        inflight = [], started = [], peak = 0, settled = []\<rparr>"
  by code_simp

text \<open>
  C6 (amended). In every run, whatever loads or fails and whatever the bound and the
  retry count are, the completion signal is never rejected and \<open>resolve\<close> is called at
  most once; when the signal is fulfilled the queue is empty, the active count is 0 and
  every URL has settled, each with the outcome of its \<open>preloadImage\<close>: loaded on some
  attempt \<open>\<le> retry\<close>, or failed on all of them. A \<open>preloadImage\<close> settles unless
  \<open>retry\<close> is \<open>+Infinity\<close> and the image never loads. For an empty list the signal is
  fulfilled at once. When the bound is above 0 and every \<open>preloadImage\<close> settles, the
  signal is fulfilled exactly when as many tasks have settled as there are URLs, and
  every settle event before that settles one more. When some \<open>preloadImage\<close> never
  settles, the signal stays pending. When the bound is not above 0 (zero, negative or
  \<open>NaN\<close>) and the list is not empty, nothing is ever started and the signal stays
  pending.
\<close>

theorem preload_signal_resolves_once:
  "signal (run_pipeline c decode retry urls picks) \<noteq> Rejected e
   \<and> resolveCalls (run_pipeline c decode retry urls picks) \<le> 1
   \<and> (signal (run_pipeline c decode retry urls picks) = Fulfilled)
       = (resolveCalls (run_pipeline c decode retry urls picks) = 1)
   \<and> (signal (run_pipeline c decode retry urls picks) = Fulfilled \<longrightarrow>
        queue (run_pipeline c decode retry urls picks) = []
        \<and> active (run_pipeline c decode retry urls picks) = 0
        \<and> mset (map fst (settled (run_pipeline c decode retry urls picks))) = mset urls)
   \<and> (\<forall>(u, r)\<in>set (settled (run_pipeline c decode retry urls picks)).
          preloadImage decode u retry = Some r)
   \<and> (preloadImage decode u retry = Some (Inr True))
       = (\<exists>k. jle (Fin (real k)) retry \<and> decode u k = None)
   \<and> (\<exists>err. preloadImage decode u retry = Some (Inl err))
       = (retry \<noteq> PInf \<and> (\<forall>k. jle (Fin (real k)) retry \<longrightarrow> decode u k \<noteq> None))
   \<and> (preloadImage decode u retry = None) = (retry = PInf \<and> (\<forall>k. decode u k \<noteq> None))
   \<and> (urls = [] \<longrightarrow> signal (run_pipeline c decode retry urls picks) = Fulfilled)
   \<and> (jlt (Fin 0) c \<and> (\<forall>u\<in>set urls. preloadImage decode u retry \<noteq> None) \<longrightarrow>
        signal (run_pipeline c decode retry urls picks)
          = (if length urls \<le> length picks then Fulfilled else Pending)
        \<and> length (settled (run_pipeline c decode retry urls picks))
          = min (length picks) (length urls))
   \<and> ((\<exists>u\<in>set urls. preloadImage decode u retry = None) \<longrightarrow>
        signal (run_pipeline c decode retry urls picks) = Pending)
   \<and> (\<not> jlt (Fin 0) c \<and> urls \<noteq> [] \<longrightarrow>
        run_pipeline c decode retry urls picks = idle_pipeline urls
        \<and> signal (run_pipeline c decode retry urls picks) = Pending)"
proof -
  let ?p = "run_pipeline c decode retry urls picks"
  note inv = pool_invD [OF pool_inv_run [of urls c decode retry picks]]
  have a: "signal ?p \<noteq> Rejected e" "resolveCalls ?p \<le> 1"
    "(signal ?p = Fulfilled) = (resolveCalls ?p = 1)"
    using inv(8) by auto
  have b: "queue ?p = [] \<and> active ?p = 0 \<and> mset (map fst (settled ?p)) = mset urls"
    if "signal ?p = Fulfilled"
  proof -
    from inv(8) that have "queue ?p = [] \<and> inflight ?p = []" by auto
    with inv(1) inv(6) show ?thesis by simp
  qed
  have empty: "signal ?p = Fulfilled" if "urls = []"
    using that by (simp add: run_empty resolve_def idle_pipeline_def)
  have d: "signal ?p = (if length urls \<le> length picks then Fulfilled else Pending)"
    and d': "length (settled ?p) = min (length picks) (length urls)"
    if live: "jlt (Fin 0) c \<and> (\<forall>u\<in>set urls. preloadImage decode u retry \<noteq> None)"
  proof -
    from live have pos: "jlt (Fin 0) c"
      and all: "\<forall>u\<in>set urls. preloadImage decode u retry \<noteq> None" by simp_all
    show cnt: "length (settled ?p) = min (length picks) (length urls)"
      using pos all by (rule run_settled_count)
    note alive = pool_live_run [OF pos, of decode retry urls picks]
    note sz = pool_sizes [OF pool_inv_run [of urls c decode retry picks]]
    show "signal ?p = (if length urls \<le> length picks then Fulfilled else Pending)"
    proof (cases "length urls \<le> length picks")
      case True
      with cnt sz have "queue ?p = [] \<and> inflight ?p = []" by simp
      with alive have "resolveCalls ?p = 1" by (simp add: pool_live_def)
      with a True show ?thesis by simp
    next
      case False
      with cnt sz have "\<not> (queue ?p = [] \<and> inflight ?p = [])" by auto
      with inv(8) have "signal ?p = Pending" by auto
      with False show ?thesis by simp
    qed
  qed
  have stuck: "signal ?p = Pending" if "\<exists>u\<in>set urls. preloadImage decode u retry = None"
  proof (rule ccontr)
    assume "signal ?p \<noteq> Pending"
    with inv(8) have "signal ?p = Fulfilled" by auto
    from b [OF this] have "set (map fst (settled ?p)) = set urls"
      by (metis set_mset_mset)
    with that obtain u r where "(u, r) \<in> set (settled ?p)" "preloadImage decode u retry = None"
      by force
    with inv(7) show False by auto
  qed
  have dead: "?p = idle_pipeline urls \<and> signal ?p = Pending" if "\<not> jlt (Fin 0) c \<and> urls \<noteq> []"
    using that by (simp add: run_never_starts idle_pipeline_def)
  from a b inv(7) empty d d' stuck dead show ?thesis
    by (simp only: preloadImage_loaded preloadImage_failed preloadImage_never) blast
qed

theorem preload_signal_resolves_once_witness:
  "signal (run_pipeline (Fin 2) third_broken (Fin 1) five_urls [1, 0, 1, 0]) = Pending
   \<and> length (settled (run_pipeline (Fin 2) third_broken (Fin 1) five_urls [1, 0, 1, 0])) = 4
   \<and> signal (run_pipeline (Fin 2) third_broken (Fin 1) five_urls [1, 0, 1, 0, 0]) = Fulfilled
   \<and> resolveCalls (run_pipeline (Fin 2) third_broken (Fin 1) five_urls [1, 0, 1, 0, 0]) = 1
   \<and> queue (run_pipeline (Fin 2) third_broken (Fin 1) five_urls [1, 0, 1, 0, 0]) = []
   \<and> active (run_pipeline (Fin 2) third_broken (Fin 1) five_urls [1, 0, 1, 0, 0]) = 0
   \<and> mset (map fst (settled (run_pipeline (Fin 2) third_broken (Fin 1) five_urls [1, 0, 1, 0, 0])))
       = mset five_urls
   \<and> settled (run_pipeline (Fin 2) third_broken (Fin 1) five_urls [1, 0, 1, 0, 0])
       = [(''2.webp'', Inr True), (''1.webp'', Inr True), (''4.webp'', Inr True),
          (''3.webp'', Inl ImageError), (''5.webp'', Inr True)]
   \<and> signal (run_pipeline (Fin 2) third_broken (Fin 1) five_urls [1, 0, 1, 0, 0, 3, 1]) = Fulfilled
   \<and> resolveCalls (run_pipeline (Fin 2) third_broken (Fin 1) five_urls [1, 0, 1, 0, 0, 3, 1]) = 1
   \<and> preloadImage third_broken ''3.webp'' PInf = None
   \<and> signal (run_pipeline (Fin 2) third_broken PInf five_urls [1, 0, 1, 0, 0, 3, 1]) = Pending
   \<and> signal (run_pipeline (Fin (- 1)) third_broken (Fin 1) five_urls [1, 0, 1, 0, 0]) = Pending
   \<and> signal (run_pipeline NaN third_broken (Fin 1) [] []) = Fulfilled"
proof -
  have pos: "jlt (Fin 0) (Fin 2)" by simp
  have len: "length five_urls = 5" by (simp add: five_urls_def)
  have all: "\<forall>u\<in>set five_urls. preloadImage third_broken u (Fin 1) \<noteq> None"
    by code_simp
  note four = preload_signal_resolves_once [where c = "Fin 2" and decode = third_broken
      and retry = "Fin 1" and urls = five_urls and picks = "[1, 0, 1, 0]" and e = ImageError
      and u = "''3.webp''"]
  note five = preload_signal_resolves_once [where c = "Fin 2" and decode = third_broken
      and retry = "Fin 1" and urls = five_urls and picks = "[1, 0, 1, 0, 0]" and e = ImageError
      and u = "''3.webp''"]
  note seven = preload_signal_resolves_once [where c = "Fin 2" and decode = third_broken
      and retry = "Fin 1" and urls = five_urls and picks = "[1, 0, 1, 0, 0, 3, 1]"
      and e = ImageError and u = "''3.webp''"]
  note forever = preload_signal_resolves_once [where c = "Fin 2" and decode = third_broken
      and retry = PInf and urls = five_urls and picks = "[1, 0, 1, 0, 0, 3, 1]"
      and e = ImageError and u = "''3.webp''"]
  note below = preload_signal_resolves_once [where c = "Fin (- 1)" and decode = third_broken
      and retry = "Fin 1" and urls = five_urls and picks = "[1, 0, 1, 0, 0]" and e = ImageError
      and u = "''3.webp''"]
  note none = preload_signal_resolves_once [where c = NaN and decode = third_broken
      and retry = "Fin 1" and urls = "[]" and picks = "[]" and e = ImageError
      and u = "''3.webp''"]
  from four pos all
  have "signal (run_pipeline (Fin 2) third_broken (Fin 1) five_urls [1, 0, 1, 0])
          = (if length five_urls \<le> length [1, 0, 1, 0::nat] then Fulfilled else Pending)
        \<and> length (settled (run_pipeline (Fin 2) third_broken (Fin 1) five_urls [1, 0, 1, 0]))
          = min (length [1, 0, 1, 0::nat]) (length five_urls)"
    by blast
  with len have a: "signal (run_pipeline (Fin 2) third_broken (Fin 1) five_urls [1, 0, 1, 0]) = Pending"
    "length (settled (run_pipeline (Fin 2) third_broken (Fin 1) five_urls [1, 0, 1, 0])) = 4"
    by simp_all
  from five pos all
  have "signal (run_pipeline (Fin 2) third_broken (Fin 1) five_urls [1, 0, 1, 0, 0])
          = (if length five_urls \<le> length [1, 0, 1, 0, 0::nat] then Fulfilled else Pending)"
    by blast
  with len have b: "signal (run_pipeline (Fin 2) third_broken (Fin 1) five_urls [1, 0, 1, 0, 0]) = Fulfilled"
    by simp
  with five have c: "resolveCalls (run_pipeline (Fin 2) third_broken (Fin 1) five_urls [1, 0, 1, 0, 0]) = 1"
    "queue (run_pipeline (Fin 2) third_broken (Fin 1) five_urls [1, 0, 1, 0, 0]) = []"
    "active (run_pipeline (Fin 2) third_broken (Fin 1) five_urls [1, 0, 1, 0, 0]) = 0"
    "mset (map fst (settled (run_pipeline (Fin 2) third_broken (Fin 1) five_urls [1, 0, 1, 0, 0])))
       = mset five_urls"
    by blast+
  have d: "settled (run_pipeline (Fin 2) third_broken (Fin 1) five_urls [1, 0, 1, 0, 0])
       = [(''2.webp'', Inr True), (''1.webp'', Inr True), (''4.webp'', Inr True),
          (''3.webp'', Inl ImageError), (''5.webp'', Inr True)]"
    by code_simp
  from seven pos all
  have "signal (run_pipeline (Fin 2) third_broken (Fin 1) five_urls [1, 0, 1, 0, 0, 3, 1])
          = (if length five_urls \<le> length [1, 0, 1, 0, 0, 3, 1::nat] then Fulfilled else Pending)"
    by blast
  with len have e: "signal (run_pipeline (Fin 2) third_broken (Fin 1) five_urls [1, 0, 1, 0, 0, 3, 1]) = Fulfilled"
    by simp
  with seven have f: "resolveCalls (run_pipeline (Fin 2) third_broken (Fin 1) five_urls [1, 0, 1, 0, 0, 3, 1]) = 1"
    by blast
  have "\<forall>k. third_broken ''3.webp'' k \<noteq> None" by (simp add: third_broken_def)
  with forever have g: "preloadImage third_broken ''3.webp'' PInf = None" by blast
  have "''3.webp'' \<in> set five_urls" by (simp add: five_urls_def)
  with g have "\<exists>u\<in>set five_urls. preloadImage third_broken u PInf = None" by blast
  with forever
  have h: "signal (run_pipeline (Fin 2) third_broken PInf five_urls [1, 0, 1, 0, 0, 3, 1]) = Pending"
    by blast
  have "\<not> jlt (Fin 0) (Fin (- 1)) \<and> five_urls \<noteq> []" by (simp add: five_urls_def)
  with below
  have i: "signal (run_pipeline (Fin (- 1)) third_broken (Fin 1) five_urls [1, 0, 1, 0, 0]) = Pending"
    by blast
  from none have j: "signal (run_pipeline NaN third_broken (Fin 1) [] []) = Fulfilled"
    by blast
  from a b c d e f g h i j show ?thesis by simp
qed

section \<open>Normalization on a store\<close>

text \<open>
  To say that the caller's manifest object is not changed, objects live in a store:
  a list of cells, addressed by position. A cell is an object (its properties in
  insertion order) or an array; a value is a primitive or a reference to a cell.
\<close>

type_synonym addr = nat

datatype hval = HPrim jsval | HRef addr

datatype cell = Obj "(string \<times> hval) list" | Arr "hval list"

type_synonym store = "cell list"

definition lookup :: "store \<Rightarrow> addr \<Rightarrow> cell option" where
  "lookup h a = (if a < length h then Some (h ! a) else None)"

text \<open>A new object or array literal: a cell at the next free address.\<close>

definition alloc :: "store \<Rightarrow> cell \<Rightarrow> addr \<times> store" where
  "alloc h c = (length h, h @ [c])"

text \<open>What the type tests and coercions see of a value.\<close>

fun to_jsval :: "hval \<Rightarrow> jsval" where
  "to_jsval (HPrim p) = p"
| "to_jsval (HRef a) = JObj"

definition field_of :: "(string \<times> hval) list \<Rightarrow> string \<Rightarrow> hval" where
  "field_of fs k = (case map_of fs k of None \<Rightarrow> HPrim JUndefined | Some v \<Rightarrow> v)"

fun set_field :: "(string \<times> hval) list \<Rightarrow> string \<Rightarrow> hval \<Rightarrow> (string \<times> hval) list" where
  "set_field [] k v = [(k, v)]"
| "set_field ((k', v') # fs) k v =
     (if k' = k then (k, v) # fs else (k', v') # set_field fs k v)"

text \<open>
  \<open>v.k\<close> and \<open>o.k = v\<close>. Named properties of arrays and of primitives are not
  modelled: reading one gives \<open>undefined\<close>, writing one changes nothing.
\<close>

definition get_prop :: "store \<Rightarrow> hval \<Rightarrow> string \<Rightarrow> hval" where
  "get_prop h v k =
     (case v of
        HPrim p \<Rightarrow> HPrim JUndefined
      | HRef a \<Rightarrow> (case lookup h a of Some (Obj fs) \<Rightarrow> field_of fs k | _ \<Rightarrow> HPrim JUndefined))"

definition set_prop :: "store \<Rightarrow> addr \<Rightarrow> string \<Rightarrow> hval \<Rightarrow> store" where
  "set_prop h a k v =
     (case lookup h a of Some (Obj fs) \<Rightarrow> h[a := Obj (set_field fs k v)] | _ \<Rightarrow> h)"

text \<open>\<open>Array.isArray(v)\<close>, with the elements.\<close>

definition array_elems :: "store \<Rightarrow> hval \<Rightarrow> hval list option" where
  "array_elems h v =
     (case v of
        HRef a \<Rightarrow> (case lookup h a of Some (Arr xs) \<Rightarrow> Some xs | _ \<Rightarrow> None)
      | HPrim p \<Rightarrow> None)"

text \<open>\<open>v || d\<close>.\<close>

definition or_default :: "hval \<Rightarrow> hval \<Rightarrow> hval" where
  "or_default v d = (if truthy (to_jsval v) then v else d)"

subsection \<open>\<open>structuredClone\<close>\<close>

text \<open>
  The deep copy of a value: every object and array reached from it is copied into a new
  cell, children first. A manifest is JSON data, whose object graph is a tree; the copy
  descends at most \<open>fuel\<close> references deep, and the number of cells of the store plus one
  is deep enough for every graph without a cycle. On a cycle (where \<open>JSON.stringify\<close>
  throws) the copy reports failure. \<open>src\<close> is the store the value is read from, \<open>h\<close>
  the store that grows.
\<close>

fun clone_val :: "nat \<Rightarrow> store \<Rightarrow> hval \<Rightarrow> store \<Rightarrow> (hval \<times> store) option"
  and clone_vals :: "nat \<Rightarrow> store \<Rightarrow> hval list \<Rightarrow> store \<Rightarrow> (hval list \<times> store) option" where
  "clone_val fuel src (HPrim p) h = Some (HPrim p, h)"
| "clone_val 0 src (HRef a) h = None"
| "clone_val (Suc fuel) src (HRef a) h =
     (case lookup src a of
        None \<Rightarrow> None
      | Some (Obj fs) \<Rightarrow>
          (case clone_vals fuel src (map snd fs) h of
             None \<Rightarrow> None
           | Some (vs, h') \<Rightarrow> Some (HRef (length h'), h' @ [Obj (zip (map fst fs) vs)]))
      | Some (Arr xs) \<Rightarrow>
          (case clone_vals fuel src xs h of
             None \<Rightarrow> None
           | Some (vs, h') \<Rightarrow> Some (HRef (length h'), h' @ [Arr vs])))"
| "clone_vals fuel src [] h = Some ([], h)"
| "clone_vals fuel src (v # vs) h =
     (case clone_val fuel src v h of
        None \<Rightarrow> None
      | Some (v', h') \<Rightarrow>
          (case clone_vals fuel src vs h' of
             None \<Rightarrow> None
           | Some (vs', h'') \<Rightarrow> Some (v' # vs', h'')))"

definition structuredClone :: "store \<Rightarrow> hval \<Rightarrow> (hval \<times> store) option" where
  "structuredClone h v = clone_val (Suc (length h)) h v h"

subsection \<open>The core's \<open>#normalizeManifest\<close> on the store\<close>

text \<open>
  The \<open>forEach\<close> over the scenes of the clone: the same tests as in \<open>core_scenes\<close>, and
  \<open>s.t = cursor\<close> as a write to the scene's cell. Reading \<open>d\<close> of \<open>null\<close> or
  \<open>undefined\<close> is a \<open>TypeError\<close>. The result is the error thrown, if any, and the
  store as the loop leaves it.
\<close>

fun core_each :: "store \<Rightarrow> jsnum \<Rightarrow> nat \<Rightarrow> hval list \<Rightarrow> error option \<times> store" where
  "core_each h cursor i [] = (None, h)"
| "core_each h cursor i (s # rest) =
     (case s of
        HPrim p \<Rightarrow>
          (Some (if p = JNull \<or> p = JUndefined then TypeError else MissingPositiveDuration i), h)
      | HRef a \<Rightarrow>
          (case to_jsval (get_prop h s ''d'') of
             JNum dd \<Rightarrow>
               if jle dd (Fin 0) then (Some (MissingPositiveDuration i), h)
               else (case to_jsval (get_prop h s ''t'') of
                       JNum tt \<Rightarrow> core_each h (jadd tt dd) (Suc i) rest
                     | _ \<Rightarrow>
                         core_each (set_prop h a ''t'' (HPrim (JNum cursor)))
                           (jadd cursor dd) (Suc i) rest)
           | _ \<Rightarrow> (Some (MissingPositiveDuration i), h)))"

text \<open>
  \<open>#normalizeManifest(manifest)\<close>: clone, then the loop over \<open>m.scenes\<close> (a
  \<open>TypeError\<close> if that is not an array), then \<open>m\<close> is returned.
\<close>

definition core_normalize_store :: "store \<Rightarrow> hval \<Rightarrow> (error + hval) \<times> store" where
  "core_normalize_store h manifest =
     (case structuredClone h manifest of
        None \<Rightarrow> (Inl DataCloneError, h)
      | Some (m, h1) \<Rightarrow>
          (case array_elems h1 (get_prop h1 m ''scenes'') of
             None \<Rightarrow> (Inl TypeError, h1)
           | Some elems \<Rightarrow>
               (case core_each h1 (Fin 0) 0 elems of
                  (None, h2) \<Rightarrow> (Inr m, h2)
                | (Some e, h2) \<Rightarrow> (Inl e, h2))))"

subsection \<open>The loader's \<open>normalizeManifest\<close> on the store\<close>

text \<open>
  The callback of \<open>m.scenes.map\<close> for one scene, in its four parts. \<open>{...s}\<close> is a
  new object with the properties of \<open>s\<close> (none when \<open>s\<close> is not an object); every
  assignment of the callback is to that new object, at address \<open>a\<close>.
\<close>

definition spread_object :: "store \<Rightarrow> hval \<Rightarrow> addr \<times> store" where
  "spread_object h s =
     alloc h (Obj (case s of
                     HRef a0 \<Rightarrow> (case lookup h a0 of Some (Obj fs) \<Rightarrow> fs | _ \<Rightarrow> [])
                   | HPrim p \<Rightarrow> []))"

text \<open>
  The media block: \<open>media = scene.media || {}\<close>, then \<open>scene.media\<close> is assigned a
  new object with \<open>src\<close>, \<open>credit\<close> and \<open>kenburns\<close>. The text of \<open>media.src\<close>,
  trimmed and resolved against the manifest's location, is the parameter \<open>href\<close>.
\<close>

definition normalize_media :: "(jsval \<Rightarrow> string) \<Rightarrow> store \<Rightarrow> addr \<Rightarrow> store" where
  "normalize_media href h a =
     (let m0 = get_prop h (HRef a) ''media'';
          (media, h3) = (if truthy (to_jsval m0) then (m0, h)
                         else (let (e, h') = alloc h (Obj []) in (HRef e, h')));
          (am, h4) = alloc h3
             (Obj [(''src'', HPrim (JStr (href (to_jsval (get_prop h3 media ''src''))))),
                   (''credit'', get_prop h3 media ''credit''),
                   (''kenburns'', or_default (get_prop h3 media ''kenburns'')
                                    (HPrim (JStr ''center'')))])
      in set_prop h4 a ''media'' (HRef am))"

text \<open>\<open>if (!Array.isArray(scene.k)) scene.k = []\<close>, for \<open>text\<close> and \<open>callouts\<close>.\<close>

definition default_array :: "store \<Rightarrow> addr \<Rightarrow> string \<Rightarrow> store" where
  "default_array h a k =
     (if array_elems h (get_prop h (HRef a) k) = None
      then (let (e, h') = alloc h (Arr []) in set_prop h' a k (HRef e))
      else h)"

text \<open>
  \<open>scene.transitionIn = scene.transitionIn || "crossfade"\<close> and
  \<open>scene.transitionOut = scene.transitionOut || scene.transitionIn\<close>.
\<close>

definition default_transitions :: "store \<Rightarrow> addr \<Rightarrow> store" where
  "default_transitions h a =
     (let h8 = set_prop h a ''transitionIn''
                 (or_default (get_prop h (HRef a) ''transitionIn'') (HPrim (JStr ''crossfade'')))
      in set_prop h8 a ''transitionOut''
           (or_default (get_prop h8 (HRef a) ''transitionOut'')
              (get_prop h8 (HRef a) ''transitionIn'')))"

text \<open>
  The whole callback: the duration is clamped and assigned, then tested; a scene that
  passes gets its media, arrays and transitions.
\<close>

definition loader_scene_store ::
    "(jsval \<Rightarrow> jsnum) \<Rightarrow> (jsval \<Rightarrow> string) \<Rightarrow> nat \<Rightarrow> store \<Rightarrow> hval \<Rightarrow> (error + hval) \<times> store" where
  "loader_scene_store ext href i h s =
     (let (a, h1) = spread_object h s;
          dd = clamp_d ext (to_jsval (get_prop h1 (HRef a) ''d''));
          h2 = set_prop h1 a ''d'' (HPrim (JNum dd))
      in if \<not> truthy (JNum dd) \<or> \<not> isFinite dd then (Inl (RequiresPositiveDuration i), h2)
         else (Inr (HRef a),
               default_transitions
                 (default_array (default_array (normalize_media href h2 a) a ''text'') a ''callouts'')
                 a))"

fun loader_each ::
    "(jsval \<Rightarrow> jsnum) \<Rightarrow> (jsval \<Rightarrow> string) \<Rightarrow> nat \<Rightarrow> store \<Rightarrow> hval list \<Rightarrow> (error + hval list) \<times> store" where
  "loader_each ext href i h [] = (Inr [], h)"
| "loader_each ext href i h (s # rest) =
     (case loader_scene_store ext href i h s of
        (Inl e, h1) \<Rightarrow> (Inl e, h1)
      | (Inr v, h1) \<Rightarrow>
          (case loader_each ext href (Suc i) h1 rest of
             (Inl e, h2) \<Rightarrow> (Inl e, h2)
           | (Inr vs, h2) \<Rightarrow> (Inr (v # vs), h2)))"

text \<open>\<open>sumDurations\<close> over the scene objects of the store.\<close>

definition sum_durations_store :: "(jsval \<Rightarrow> jsnum) \<Rightarrow> store \<Rightarrow> hval list \<Rightarrow> jsnum" where
  "sum_durations_store ext h vs =
     foldl (\<lambda>acc s. jadd acc (let n = ToNumber ext (to_jsval (get_prop h s ''d'')) in
                               if truthy (JNum n) then n else Fin 0))
       (Fin 0) vs"

text \<open>
  \<open>if (!Array.isArray(m.scenes)) m.scenes = []\<close>: the elements the map will run over,
  and the store.
\<close>

definition ensure_scenes :: "store \<Rightarrow> addr \<Rightarrow> hval list \<times> store" where
  "ensure_scenes h am =
     (case array_elems h (get_prop h (HRef am) ''scenes'') of
        Some xs \<Rightarrow> (xs, h)
      | None \<Rightarrow> (let (e, h') = alloc h (Arr []) in ([], set_prop h' am ''scenes'' (HRef e))))"

text \<open>
  After the map: its result is a new array, assigned to \<open>m.scenes\<close>; then
  \<open>m.theme\<close> and \<open>m.duration\<close> are assigned.
\<close>

definition finish_manifest :: "(jsval \<Rightarrow> jsnum) \<Rightarrow> store \<Rightarrow> addr \<Rightarrow> hval list \<Rightarrow> store" where
  "finish_manifest ext h am vs =
     (let (anew, h4) = alloc h (Arr vs);
          h5 = set_prop h4 am ''scenes'' (HRef anew);
          h6 = set_prop h5 am ''theme''
                 (HPrim (JStr (if to_jsval (get_prop h5 (HRef am) ''theme'') = JStr ''dark''
                               then ''dark'' else ''light'')));
          n = ToNumber ext (to_jsval (get_prop h6 (HRef am) ''duration''))
      in set_prop h6 am ''duration''
           (HPrim (JNum (if truthy (JNum n) then n else sum_durations_store ext h6 vs))))"

text \<open>
  \<open>normalizeManifest(raw, manifestUrl)\<close>: clone, make sure of \<open>m.scenes\<close>, map the
  scenes, finish, return \<open>m\<close>. A clone that is a primitive cannot take the assignments.
\<close>

definition loader_normalize_store ::
    "(jsval \<Rightarrow> jsnum) \<Rightarrow> (jsval \<Rightarrow> string) \<Rightarrow> store \<Rightarrow> hval \<Rightarrow> (error + hval) \<times> store" where
  "loader_normalize_store ext href h raw =
     (case structuredClone h raw of
        None \<Rightarrow> (Inl DataCloneError, h)
      | Some (m, h1) \<Rightarrow>
          (case m of
             HPrim p \<Rightarrow> (Inl TypeError, h1)
           | HRef am \<Rightarrow>
               (let (elems, h2) = ensure_scenes h1 am
                in case loader_each ext href 0 h2 elems of
                     (Inl e, h3) \<Rightarrow> (Inl e, h3)
                   | (Inr vs, h3) \<Rightarrow> (Inr m, finish_manifest ext h3 am vs))))"

subsection \<open>The cells a normalizer may write to\<close>

fun refs_of_val :: "hval \<Rightarrow> addr set" where
  "refs_of_val (HPrim p) = {}"
| "refs_of_val (HRef a) = {a}"

fun refs_of_cell :: "cell \<Rightarrow> addr set" where
  "refs_of_cell (Obj fs) = (\<Union>v\<in>snd ` set fs. refs_of_val v)"
| "refs_of_cell (Arr xs) = (\<Union>v\<in>set xs. refs_of_val v)"

text \<open>
  \<open>unchanged_below n h h'\<close>: \<open>h'\<close> has every cell of \<open>h\<close> below address \<open>n\<close> as it
  was, and is at least as long. \<open>closed_above n h\<close>: no cell at or above \<open>n\<close> refers to
  a cell below \<open>n\<close>.
\<close>

definition unchanged_below :: "nat \<Rightarrow> store \<Rightarrow> store \<Rightarrow> bool" where
  "unchanged_below n h h' = (length h \<le> length h' \<and> take n h' = take n h)"

definition closed_above :: "nat \<Rightarrow> store \<Rightarrow> bool" where
  "closed_above n h = (\<forall>a. n \<le> a \<and> a < length h \<longrightarrow> (\<forall>r\<in>refs_of_cell (h ! a). n \<le> r))"

definition above :: "nat \<Rightarrow> hval \<Rightarrow> bool" where
  "above n v = (\<forall>r\<in>refs_of_val v. n \<le> r)"

lemma above_prim [simp]: "above n (HPrim p)"
  by (simp add: above_def)

lemma above_ref [simp]: "above n (HRef a) = (n \<le> a)"
  by (simp add: above_def)

lemma unchanged_below_refl [simp]: "unchanged_below n h h"
  by (simp add: unchanged_below_def)

lemma unchanged_below_trans:
  "unchanged_below n h h1 \<Longrightarrow> unchanged_below n h1 h2 \<Longrightarrow> unchanged_below n h h2"
  by (simp add: unchanged_below_def)

lemma closed_above_append:
  assumes "closed_above n h" and "\<forall>r\<in>refs_of_cell c. n \<le> r"
  shows "closed_above n (h @ [c])"
  unfolding closed_above_def
proof (intro allI impI)
  fix a
  assume a: "n \<le> a \<and> a < length (h @ [c])"
  show "\<forall>r\<in>refs_of_cell ((h @ [c]) ! a). n \<le> r"
  proof (cases "a < length h")
    case True
    with a assms(1) show ?thesis by (simp add: closed_above_def nth_append)
  next
    case False
    with a have "a = length h" by simp
    with assms(2) show ?thesis by simp
  qed
qed

lemma unchanged_below_append: "n \<le> length h \<Longrightarrow> unchanged_below n h (h @ [c])"
  by (simp add: unchanged_below_def)

lemma alloc_props:
  assumes "alloc h c = (a, h')" and "n \<le> length h" and "closed_above n h"
    and "\<forall>r\<in>refs_of_cell c. n \<le> r"
  shows "n \<le> a" and "unchanged_below n h h'" and "closed_above n h'" and "n \<le> length h'"
  using assms closed_above_append [of n h c]
  by (auto simp: alloc_def unchanged_below_append)

lemma set_field_member:
  "(k', w) \<in> set (set_field fs k v) \<Longrightarrow> w = v \<or> (\<exists>k''. (k'', w) \<in> set fs)"
  by (induction fs) (auto split: if_splits)

lemma set_field_values: "snd ` set (set_field fs k v) \<subseteq> snd ` set fs \<union> {v}"
proof
  fix w
  assume "w \<in> snd ` set (set_field fs k v)"
  then obtain k' where "(k', w) \<in> set (set_field fs k v)" by auto
  from set_field_member [OF this] show "w \<in> snd ` set fs \<union> {v}" by force
qed

lemma refs_set_field:
  "(\<Union>w\<in>snd ` set (set_field fs k v). refs_of_val w)
     \<subseteq> (\<Union>w\<in>snd ` set fs. refs_of_val w) \<union> refs_of_val v"
  using set_field_values [of fs k v] by blast

lemma set_prop_length [simp]: "length (set_prop h a k v) = length h"
  by (simp add: set_prop_def split: option.splits cell.splits)

lemma set_prop_props:
  assumes "n \<le> a" and "closed_above n h" and "above n v"
  shows "unchanged_below n h (set_prop h a k v)" and "closed_above n (set_prop h a k v)"
proof -
  show "unchanged_below n h (set_prop h a k v)"
    using assms(1) by (simp add: unchanged_below_def set_prop_def split: option.splits cell.splits)
  show "closed_above n (set_prop h a k v)"
  proof (cases "lookup h a")
    case None
    with assms(2) show ?thesis by (simp add: set_prop_def)
  next
    case (Some c)
    then have a: "a < length h" "h ! a = c" by (auto simp: lookup_def split: if_splits)
    show ?thesis
    proof (cases c)
      case (Arr xs)
      with Some assms(2) show ?thesis by (simp add: set_prop_def)
    next
      case (Obj fs)
      have new: "\<forall>r\<in>refs_of_cell (Obj (set_field fs k v)). n \<le> r"
      proof
        fix r
        assume "r \<in> refs_of_cell (Obj (set_field fs k v))"
        with refs_set_field [of fs k v] have "r \<in> refs_of_cell (Obj fs) \<or> r \<in> refs_of_val v"
          by auto
        with assms a Obj show "n \<le> r" by (auto simp: closed_above_def above_def)
      qed
      have "closed_above n (h[a := Obj (set_field fs k v)])"
        unfolding closed_above_def
      proof (intro allI impI)
        fix b
        assume b: "n \<le> b \<and> b < length (h[a := Obj (set_field fs k v)])"
        show "\<forall>r\<in>refs_of_cell (h[a := Obj (set_field fs k v)] ! b). n \<le> r"
        proof (cases "b = a")
          case True
          with a new show ?thesis by simp
        next
          case False
          with b assms(2) show ?thesis by (simp add: closed_above_def)
        qed
      qed
      with Some Obj show ?thesis by (simp add: set_prop_def)
    qed
  qed
qed

lemma field_of_refs:
  "refs_of_val (field_of fs k) \<subseteq> (\<Union>v\<in>snd ` set fs. refs_of_val v)"
proof (cases "map_of fs k")
  case None
  then show ?thesis by (simp add: field_of_def)
next
  case (Some v)
  then have "(k, v) \<in> set fs" by (rule map_of_SomeD)
  then have "v \<in> snd ` set fs" by force
  with Some show ?thesis by (auto simp: field_of_def)
qed

lemma get_prop_above:
  assumes "closed_above n h" and "above n v"
  shows "above n (get_prop h v k)"
proof (cases v)
  case (HPrim p)
  then show ?thesis by (simp add: get_prop_def)
next
  case (HRef a)
  with assms(2) have na: "n \<le> a" by simp
  show ?thesis
  proof (cases "lookup h a")
    case None
    with HRef show ?thesis by (simp add: get_prop_def)
  next
    case (Some c)
    then have a: "a < length h" "h ! a = c" by (auto simp: lookup_def split: if_splits)
    show ?thesis
    proof (cases c)
      case (Arr xs)
      with Some HRef show ?thesis by (simp add: get_prop_def)
    next
      case (Obj fs)
      from assms(1) na a Obj have "\<forall>r\<in>(\<Union>v\<in>snd ` set fs. refs_of_val v). n \<le> r"
        by (auto simp: closed_above_def)
      with field_of_refs [of fs k] have "\<forall>r\<in>refs_of_val (field_of fs k). n \<le> r" by blast
      with Some Obj HRef show ?thesis by (simp add: get_prop_def above_def)
    qed
  qed
qed

lemma array_elems_above:
  assumes "closed_above n h" and "above n v" and "array_elems h v = Some xs"
  shows "\<forall>x\<in>set xs. above n x"
proof -
  from assms(3) obtain a where v: "v = HRef a" and a: "a < length h" "h ! a = Arr xs"
    by (auto simp: array_elems_def lookup_def split: hval.splits option.splits cell.splits if_splits)
  from assms(2) v have "n \<le> a" by simp
  with assms(1) a have "\<forall>r\<in>refs_of_cell (Arr xs). n \<le> r" by (auto simp: closed_above_def)
  then show ?thesis by (auto simp: above_def)
qed

lemma unchanged_below_length: "unchanged_below n h h' \<Longrightarrow> n \<le> length h \<Longrightarrow> n \<le> length h'"
  by (simp add: unchanged_below_def)

lemma new_cell_refs:
  assumes "\<forall>x\<in>set vs. above n x"
  shows "\<forall>r\<in>refs_of_cell (Obj (zip ks vs)). n \<le> r" and "\<forall>r\<in>refs_of_cell (Arr vs). n \<le> r"
proof -
  have "snd ` set (zip ks vs) \<subseteq> set vs"
    by (auto dest: set_zip_rightD)
  with assms show "\<forall>r\<in>refs_of_cell (Obj (zip ks vs)). n \<le> r"
    by (auto simp: above_def)
  from assms show "\<forall>r\<in>refs_of_cell (Arr vs). n \<le> r"
    by (auto simp: above_def)
qed

lemma clone_props:
  "clone_val fuel src v h = Some (v', h') \<Longrightarrow> n \<le> length h \<Longrightarrow> closed_above n h \<Longrightarrow>
     unchanged_below n h h' \<and> closed_above n h' \<and> above n v'"
  "clone_vals fuel src vs h = Some (vs', h') \<Longrightarrow> n \<le> length h \<Longrightarrow> closed_above n h \<Longrightarrow>
     unchanged_below n h h' \<and> closed_above n h' \<and> (\<forall>x\<in>set vs'. above n x)"
proof (induction fuel src v h and fuel src vs h arbitrary: v' h' and vs' h'
    rule: clone_val_clone_vals.induct)
  case (1 fuel src p h)
  then show ?case by auto
next
  case (2 src a h)
  then show ?case by simp
next
  case (3 fuel src a h)
  from "3.prems"(1) obtain c where c: "lookup src a = Some c"
    by (auto split: option.splits)
  show ?case
  proof (cases c)
    case (Obj fs)
    with c "3.prems"(1) obtain vs h1 where run: "clone_vals fuel src (map snd fs) h = Some (vs, h1)"
      and res: "v' = HRef (length h1)" "h' = h1 @ [Obj (zip (map fst fs) vs)]"
      by (auto split: option.splits)
    from "3.IH"(1) [OF c Obj run "3.prems"(2,3)]
    have ih: "unchanged_below n h h1" "closed_above n h1" "\<forall>x\<in>set vs. above n x" by simp_all
    from ih(1) "3.prems"(2) have len: "n \<le> length h1" by (rule unchanged_below_length)
    have "unchanged_below n h h'"
      using ih(1) unchanged_below_append [OF len] res(2) by (auto intro: unchanged_below_trans)
    moreover have "closed_above n h'"
      unfolding res(2) using ih(2) new_cell_refs(1) [OF ih(3)] by (rule closed_above_append)
    ultimately show ?thesis using len res(1) by simp
  next
    case (Arr xs)
    with c "3.prems"(1) obtain vs h1 where run: "clone_vals fuel src xs h = Some (vs, h1)"
      and res: "v' = HRef (length h1)" "h' = h1 @ [Arr vs]"
      by (auto split: option.splits)
    from "3.IH"(2) [OF c Arr run "3.prems"(2,3)]
    have ih: "unchanged_below n h h1" "closed_above n h1" "\<forall>x\<in>set vs. above n x" by simp_all
    from ih(1) "3.prems"(2) have len: "n \<le> length h1" by (rule unchanged_below_length)
    have "unchanged_below n h h'"
      using ih(1) unchanged_below_append [OF len] res(2) by (auto intro: unchanged_below_trans)
    moreover have "closed_above n h'"
      unfolding res(2) using ih(2) new_cell_refs(2) [OF ih(3)] by (rule closed_above_append)
    ultimately show ?thesis using len res(1) by simp
  qed
next
  case (4 fuel src h)
  then show ?case by auto
next
  case (5 fuel src v vs h)
  from "5.prems"(1) obtain w h1 ws where one: "clone_val fuel src v h = Some (w, h1)"
    and more: "clone_vals fuel src vs h1 = Some (ws, h')" and res: "vs' = w # ws"
    by (auto split: option.splits)
  from "5.IH"(1) [OF one "5.prems"(2,3)]
  have ih1: "unchanged_below n h h1" "closed_above n h1" "above n w" by simp_all
  from ih1(1) "5.prems"(2) have len: "n \<le> length h1" by (rule unchanged_below_length)
  from "5.IH"(2) [OF one _ more len ih1(2)]
  have ih2: "unchanged_below n h1 h'" "closed_above n h'" "\<forall>x\<in>set ws. above n x" by simp_all
  from ih1 ih2 res show ?case by (auto intro: unchanged_below_trans)
qed

lemma structuredClone_props:
  assumes "structuredClone h v = Some (m, h1)"
  shows "unchanged_below (length h) h h1" and "closed_above (length h) h1" and "above (length h) m"
proof -
  have "closed_above (length h) h" by (simp add: closed_above_def)
  with clone_props(1) [of "Suc (length h)" h v h m h1 "length h"] assms
  show "unchanged_below (length h) h h1" and "closed_above (length h) h1" and "above (length h) m"
    by (simp_all add: structuredClone_def)
qed

lemma core_each_props:
  "core_each h cursor i elems = (r, h') \<Longrightarrow> closed_above n h \<Longrightarrow> \<forall>x\<in>set elems. above n x \<Longrightarrow>
     unchanged_below n h h' \<and> closed_above n h'"
proof (induction elems arbitrary: h cursor i)
  case Nil
  then show ?case by simp
next
  case (Cons s rest)
  show ?case
  proof (cases s)
    case (HPrim p)
    with Cons.prems show ?thesis by auto
  next
    case (HRef a)
    with Cons.prems(3) have na: "n \<le> a" by simp
    show ?thesis
    proof (cases "\<exists>dd. to_jsval (get_prop h s ''d'') = JNum dd \<and> \<not> jle dd (Fin 0)")
      case False
      with HRef Cons.prems show ?thesis by (auto split: jsval.splits if_splits)
    next
      case True
      then obtain dd where dd: "to_jsval (get_prop h s ''d'') = JNum dd" "\<not> jle dd (Fin 0)" by blast
      show ?thesis
      proof (cases "\<exists>tt. to_jsval (get_prop h s ''t'') = JNum tt")
        case True
        then obtain tt where "to_jsval (get_prop h s ''t'') = JNum tt" by blast
        with HRef dd Cons.prems(1) have "core_each h (jadd tt dd) (Suc i) rest = (r, h')" by simp
        from Cons.IH [OF this Cons.prems(2)] Cons.prems(3) show ?thesis by simp
      next
        case False
        let ?h1 = "set_prop h a ''t'' (HPrim (JNum cursor))"
        from False HRef dd Cons.prems(1)
        have run: "core_each ?h1 (jadd cursor dd) (Suc i) rest = (r, h')"
          by (auto split: jsval.splits)
        have w: "unchanged_below n h ?h1" "closed_above n ?h1"
          using set_prop_props [OF na Cons.prems(2), of "HPrim (JNum cursor)" "''t''"] by simp_all
        from Cons.IH [OF run w(2)] Cons.prems(3)
        have "unchanged_below n ?h1 h' \<and> closed_above n h'" by simp
        with w(1) show ?thesis by (auto intro: unchanged_below_trans)
      qed
    qed
  qed
qed

lemma core_normalize_store_props:
  assumes "core_normalize_store h v = (r, h')"
  shows "unchanged_below (length h) h h'"
    and "closed_above (length h) h'"
    and "r = Inr m \<Longrightarrow> above (length h) m"
proof -
  have "unchanged_below (length h) h h' \<and> closed_above (length h) h'
        \<and> (r = Inr m \<longrightarrow> above (length h) m)"
  proof (cases "structuredClone h v")
    case None
    with assms show ?thesis by (auto simp: core_normalize_store_def closed_above_def)
  next
    case (Some mh)
    obtain m1 h1 where mh: "mh = (m1, h1)" by (cases mh)
    note cl = structuredClone_props [OF Some [unfolded mh]]
    show ?thesis
    proof (cases "array_elems h1 (get_prop h1 m1 ''scenes'')")
      case None
      with Some mh assms cl show ?thesis by (auto simp: core_normalize_store_def)
    next
      case (Some elems)
      have el: "\<forall>x\<in>set elems. above (length h) x"
        using array_elems_above [OF cl(2) get_prop_above [OF cl(2,3)] Some] .
      obtain e h2 where each: "core_each h1 (Fin 0) 0 elems = (e, h2)"
        by (cases "core_each h1 (Fin 0) 0 elems")
      from core_each_props [OF each cl(2) el]
      have "unchanged_below (length h) h1 h2" "closed_above (length h) h2" by simp_all
      with cl(1) have "unchanged_below (length h) h h2" "closed_above (length h) h2"
        by (auto intro: unchanged_below_trans)
      moreover from assms \<open>structuredClone h v = Some mh\<close> mh Some each
      have "h' = h2 \<and> (r = Inr m \<longrightarrow> m = m1)"
        by (auto simp: core_normalize_store_def split: option.splits)
      ultimately show ?thesis using cl(3) by auto
    qed
  qed
  then show "unchanged_below (length h) h h'" and "closed_above (length h) h'"
    and "r = Inr m \<Longrightarrow> above (length h) m"
    by simp_all
qed

text \<open>
  What every step of a normalizer keeps, for \<open>n\<close> the size of the store at the call:
  the cells below \<open>n\<close> are untouched and the new cells refer to new cells only.
\<close>

definition store_ok :: "nat \<Rightarrow> store \<Rightarrow> store \<Rightarrow> bool" where
  "store_ok n h h' = (n \<le> length h' \<and> unchanged_below n h h' \<and> closed_above n h')"

lemma store_ok_push:
  assumes "store_ok n h0 h" and "\<forall>r\<in>refs_of_cell c. n \<le> r"
  shows "store_ok n h0 (h @ [c])" and "n \<le> length h"
proof -
  from assms(1) have n: "n \<le> length h" and u: "unchanged_below n h0 h" and c: "closed_above n h"
    by (simp_all add: store_ok_def)
  from u unchanged_below_append [OF n, of c] have "unchanged_below n h0 (h @ [c])"
    by (rule unchanged_below_trans)
  with n closed_above_append [OF c assms(2)] show "store_ok n h0 (h @ [c])"
    by (simp add: store_ok_def)
  from n show "n \<le> length h" .
qed

lemma store_ok_set:
  assumes "store_ok n h0 h" and "n \<le> a" and "above n v"
  shows "store_ok n h0 (set_prop h a k v)"
proof -
  from assms(1) have n: "n \<le> length h" and u: "unchanged_below n h0 h" and c: "closed_above n h"
    by (simp_all add: store_ok_def)
  from set_prop_props [OF assms(2) c assms(3), of k] u n show ?thesis
    by (auto simp: store_ok_def intro: unchanged_below_trans)
qed

lemma store_ok_get: "store_ok n h0 h \<Longrightarrow> above n v \<Longrightarrow> above n (get_prop h v k)"
  by (simp add: store_ok_def get_prop_above)

lemma or_default_above: "above n v \<Longrightarrow> above n d \<Longrightarrow> above n (or_default v d)"
  by (simp add: or_default_def)

lemma spread_object_props:
  assumes "spread_object h s = (a, h1)" and ok: "store_ok n h0 h" and s: "above n s"
  shows "store_ok n h0 h1" and "n \<le> a"
proof -
  from ok have closed: "closed_above n h" by (simp add: store_ok_def)
  have fresh: "\<forall>r\<in>refs_of_cell
           (Obj (case s of
                   HRef a0 \<Rightarrow> (case lookup h a0 of Some (Obj fs) \<Rightarrow> fs | _ \<Rightarrow> [])
                 | HPrim p \<Rightarrow> [])). n \<le> r"
  proof (cases s)
    case (HPrim p)
    then show ?thesis by simp
  next
    case (HRef a0)
    with s have na: "n \<le> a0" by simp
    show ?thesis
    proof (cases "lookup h a0")
      case None
      with HRef show ?thesis by simp
    next
      case (Some c)
      then have a: "a0 < length h" "h ! a0 = c" by (auto simp: lookup_def split: if_splits)
      with closed na have "\<forall>r\<in>refs_of_cell c. n \<le> r" by (auto simp: closed_above_def)
      with Some HRef show ?thesis by (cases c) simp_all
    qed
  qed
  from store_ok_push [OF ok fresh] assms(1)
  show "store_ok n h0 h1" and "n \<le> a"
    by (auto simp: spread_object_def alloc_def)
qed

lemma default_array_ok:
  assumes "store_ok n h0 h" and "n \<le> a"
  shows "store_ok n h0 (default_array h a k)"
proof (cases "array_elems h (get_prop h (HRef a) k) = None")
  case True
  then have eq: "default_array h a k = set_prop (h @ [Arr []]) a k (HRef (length h))"
    by (simp add: default_array_def alloc_def)
  from store_ok_push [OF assms(1), of "Arr []"] have "store_ok n h0 (h @ [Arr []])" "n \<le> length h"
    by simp_all
  then show ?thesis unfolding eq using assms(2) by (intro store_ok_set) simp_all
next
  case False
  then have "default_array h a k = h"
    unfolding default_array_def by (rule if_not_P)
  with assms(1) show ?thesis by simp
qed

lemma default_transitions_ok:
  assumes "store_ok n h0 h" and "n \<le> a"
  shows "store_ok n h0 (default_transitions h a)"
proof -
  let ?h8 = "set_prop h a ''transitionIn''
                 (or_default (get_prop h (HRef a) ''transitionIn'') (HPrim (JStr ''crossfade'')))"
  from assms(2) have ar: "above n (HRef a)" by simp
  have ok8: "store_ok n h0 ?h8"
    by (rule store_ok_set [OF assms or_default_above [OF store_ok_get [OF assms(1) ar] above_prim]])
  have "store_ok n h0 (set_prop ?h8 a ''transitionOut''
           (or_default (get_prop ?h8 (HRef a) ''transitionOut'')
              (get_prop ?h8 (HRef a) ''transitionIn'')))"
    by (rule store_ok_set [OF ok8 assms(2)
          or_default_above [OF store_ok_get [OF ok8 ar] store_ok_get [OF ok8 ar]]])
  then show ?thesis by (simp add: default_transitions_def Let_def)
qed

lemma normalize_media_ok:
  assumes ok: "store_ok n h0 h" and na: "n \<le> a"
  shows "store_ok n h0 (normalize_media href h a)"
proof -
  define m0 where "m0 = get_prop h (HRef a) ''media''"
  define media where "media = (if truthy (to_jsval m0) then m0 else HRef (length h))"
  define h3 where "h3 = (if truthy (to_jsval m0) then h else h @ [Obj []])"
  define c where "c = Obj [(''src'', HPrim (JStr (href (to_jsval (get_prop h3 media ''src''))))),
                   (''credit'', get_prop h3 media ''credit''),
                   (''kenburns'', or_default (get_prop h3 media ''kenburns'')
                                    (HPrim (JStr ''center'')))]"
  have eq: "normalize_media href h a = set_prop (h3 @ [c]) a ''media'' (HRef (length h3))"
    unfolding normalize_media_def c_def h3_def media_def m0_def
    by (simp add: Let_def alloc_def)
  from na have ar: "above n (HRef a)" by simp
  have am0: "above n m0"
    unfolding m0_def by (rule store_ok_get [OF ok ar])
  have ok3: "store_ok n h0 h3" and n2: "n \<le> length h"
    using store_ok_push [OF ok, of "Obj []"] ok by (simp_all add: h3_def)
  have amedia: "above n media"
    using am0 n2 by (simp add: media_def)
  have fresh: "\<forall>r\<in>refs_of_cell c. n \<le> r"
    unfolding c_def
    using store_ok_get [OF ok3 amedia, of "''credit''"]
      or_default_above [OF store_ok_get [OF ok3 amedia, of "''kenburns''"], of "HPrim (JStr ''center'')"]
    by (auto simp: above_def)
  from store_ok_push [OF ok3 fresh] have "store_ok n h0 (h3 @ [c])" "n \<le> length h3"
    by simp_all
  then show ?thesis unfolding eq using na by (intro store_ok_set) simp_all
qed

lemma loader_scene_store_props:
  assumes run: "loader_scene_store ext href i h s = (r, h')"
    and ok: "store_ok n h0 h" and s: "above n s"
  shows "store_ok n h0 h' \<and> (\<forall>v. r = Inr v \<longrightarrow> above n v)"
proof -
  obtain a h1 where sp: "spread_object h s = (a, h1)" by (cases "spread_object h s")
  from spread_object_props [OF sp ok s] have ok1: "store_ok n h0 h1" and na: "n \<le> a" by simp_all
  define dd where "dd = clamp_d ext (to_jsval (get_prop h1 (HRef a) ''d''))"
  define h2 where "h2 = set_prop h1 a ''d'' (HPrim (JNum dd))"
  have ok2: "store_ok n h0 h2"
    unfolding h2_def by (rule store_ok_set [OF ok1 na above_prim])
  have ok9: "store_ok n h0 (default_transitions
                 (default_array (default_array (normalize_media href h2 a) a ''text'') a ''callouts'')
                 a)"
    by (intro default_transitions_ok default_array_ok normalize_media_ok ok2 na)
  have eq: "loader_scene_store ext href i h s =
      (if \<not> truthy (JNum dd) \<or> \<not> isFinite dd then (Inl (RequiresPositiveDuration i), h2)
       else (Inr (HRef a), default_transitions
                 (default_array (default_array (normalize_media href h2 a) a ''text'') a ''callouts'')
                 a))"
    unfolding loader_scene_store_def sp h2_def dd_def by (simp add: Let_def)
  from run eq ok2 ok9 na show ?thesis
    by (auto split: if_splits)
qed

lemma loader_each_props:
  "loader_each ext href i h elems = (r, h') \<Longrightarrow> store_ok n h0 h \<Longrightarrow> \<forall>x\<in>set elems. above n x \<Longrightarrow>
     store_ok n h0 h' \<and> (\<forall>vs. r = Inr vs \<longrightarrow> (\<forall>v\<in>set vs. above n v))"
proof (induction elems arbitrary: i h r h')
  case Nil
  then show ?case by auto
next
  case (Cons s rest)
  obtain r1 h1 where one: "loader_scene_store ext href i h s = (r1, h1)"
    by (cases "loader_scene_store ext href i h s")
  from loader_scene_store_props [OF one Cons.prems(2)] Cons.prems(3)
  have ok1: "store_ok n h0 h1" and v1: "\<forall>v. r1 = Inr v \<longrightarrow> above n v" by simp_all
  show ?case
  proof (cases r1)
    case (Inl e)
    with one Cons.prems(1) ok1 show ?thesis by auto
  next
    case (Inr v)
    obtain r2 h2 where more: "loader_each ext href (Suc i) h1 rest = (r2, h2)"
      by (cases "loader_each ext href (Suc i) h1 rest")
    from Cons.IH [OF more ok1] Cons.prems(3)
    have ok2: "store_ok n h0 h2" and v2: "\<forall>vs. r2 = Inr vs \<longrightarrow> (\<forall>v\<in>set vs. above n v)" by simp_all
    from one Inr more Cons.prems(1) have "h' = h2 \<and> (\<forall>vs. r = Inr vs \<longrightarrow> (\<exists>ws. r2 = Inr ws \<and> vs = v # ws))"
      by (auto split: sum.splits)
    with ok2 v2 v1 Inr show ?thesis by auto
  qed
qed

lemma store_ok_start: "store_ok (length h) h h"
  by (simp add: store_ok_def closed_above_def)

lemma ensure_scenes_props:
  assumes "ensure_scenes h1 am = (elems, h2)" and ok: "store_ok n h0 h1" and nam: "n \<le> am"
  shows "store_ok n h0 h2" and "\<forall>x\<in>set elems. above n x"
proof -
  from ok have closed: "closed_above n h1" by (simp add: store_ok_def)
  from nam have ar: "above n (HRef am)" by simp
  have "store_ok n h0 h2 \<and> (\<forall>x\<in>set elems. above n x)"
  proof (cases "array_elems h1 (get_prop h1 (HRef am) ''scenes'')")
    case None
    from store_ok_push [OF ok, of "Arr []"]
    have "store_ok n h0 (h1 @ [Arr []])" "n \<le> length h1" by simp_all
    then have "store_ok n h0 (set_prop (h1 @ [Arr []]) am ''scenes'' (HRef (length h1)))"
      using nam by (intro store_ok_set) simp_all
    with None assms(1) show ?thesis by (auto simp: ensure_scenes_def alloc_def)
  next
    case (Some xs)
    from array_elems_above [OF closed get_prop_above [OF closed ar] Some] Some assms(1) ok
    show ?thesis by (auto simp: ensure_scenes_def)
  qed
  then show "store_ok n h0 h2" and "\<forall>x\<in>set elems. above n x" by simp_all
qed

lemma finish_manifest_ok:
  assumes ok: "store_ok n h0 h" and nam: "n \<le> am" and vs: "\<forall>x\<in>set vs. above n x"
  shows "store_ok n h0 (finish_manifest ext h am vs)"
proof -
  from vs have fresh: "\<forall>r\<in>refs_of_cell (Arr vs). n \<le> r"
    by (auto simp: above_def)
  from store_ok_push [OF ok fresh]
  have ok4: "store_ok n h0 (h @ [Arr vs])" and n3: "n \<le> length h" by simp_all
  let ?h5 = "set_prop (h @ [Arr vs]) am ''scenes'' (HRef (length h))"
  have ok5: "store_ok n h0 ?h5"
    using ok4 nam n3 by (intro store_ok_set) simp_all
  let ?h6 = "set_prop ?h5 am ''theme''
                 (HPrim (JStr (if to_jsval (get_prop ?h5 (HRef am) ''theme'') = JStr ''dark''
                               then ''dark'' else ''light'')))"
  have ok6: "store_ok n h0 ?h6"
    by (rule store_ok_set [OF ok5 nam above_prim])
  have ok7: "store_ok n h0 (set_prop ?h6 am ''duration'' (HPrim p))" for p
    by (rule store_ok_set [OF ok6 nam above_prim])
  let ?n = "ToNumber ext (to_jsval (get_prop ?h6 (HRef am) ''duration''))"
  have "finish_manifest ext h am vs = set_prop ?h6 am ''duration''
          (HPrim (JNum (if truthy (JNum ?n) then ?n else sum_durations_store ext ?h6 vs)))"
    by (simp only: finish_manifest_def Let_def alloc_def prod.case)
  with ok7 show ?thesis by simp
qed

lemma loader_normalize_store_props:
  assumes "loader_normalize_store ext href h v = (r, h')"
  shows "store_ok (length h) h h' \<and> (\<forall>m. r = Inr m \<longrightarrow> above (length h) m)"
proof (cases "structuredClone h v")
  case None
  with assms show ?thesis by (auto simp: loader_normalize_store_def store_ok_start)
next
  case (Some mh)
  obtain m h1 where mh: "mh = (m, h1)" by (cases mh)
  note cl = structuredClone_props [OF Some [unfolded mh]]
  from cl have ok1: "store_ok (length h) h h1"
    by (simp add: store_ok_def unchanged_below_length)
  show ?thesis
  proof (cases m)
    case (HPrim p)
    with Some mh assms ok1 show ?thesis by (auto simp: loader_normalize_store_def)
  next
    case (HRef am)
    with cl(3) have nam: "length h \<le> am" by simp
    obtain elems h2 where en: "ensure_scenes h1 am = (elems, h2)"
      by (cases "ensure_scenes h1 am")
    note e = ensure_scenes_props [OF en ok1 nam]
    obtain r3 h3 where each: "loader_each ext href 0 h2 elems = (r3, h3)"
      by (cases "loader_each ext href 0 h2 elems")
    from loader_each_props [OF each e]
    have ok3: "store_ok (length h) h h3"
      and vs3: "\<forall>vs. r3 = Inr vs \<longrightarrow> (\<forall>x\<in>set vs. above (length h) x)" by simp_all
    have split: "loader_normalize_store ext href h v =
        (case r3 of Inl e \<Rightarrow> (Inl e, h3) | Inr vs \<Rightarrow> (Inr m, finish_manifest ext h3 am vs))"
      using Some mh HRef en each
      by (simp add: loader_normalize_store_def split: sum.splits)
    show ?thesis
    proof (cases r3)
      case (Inl e)
      with split assms ok3 show ?thesis by auto
    next
      case (Inr vs)
      with vs3 have "\<forall>x\<in>set vs. above (length h) x" by simp
      from finish_manifest_ok [OF ok3 nam this, of ext] split Inr assms cl(3)
      show ?thesis by auto
    qed
  qed
qed

text \<open>
  \<open>reach h a b\<close>: the cell at \<open>b\<close> is the cell at \<open>a\<close> or is referred to, through any
  number of properties and elements, from it.
\<close>

inductive reach :: "store \<Rightarrow> addr \<Rightarrow> addr \<Rightarrow> bool" for h :: store and a :: addr where
  reach_self: "reach h a a"
| reach_step: "reach h a b \<Longrightarrow> b < length h \<Longrightarrow> c \<in> refs_of_cell (h ! b) \<Longrightarrow> reach h a c"

lemma reach_above:
  assumes "closed_above n h" and "n \<le> a" and "reach h a b"
  shows "n \<le> b"
  using assms(3)
proof (induction rule: reach.induct)
  case reach_self
  from assms(2) show ?case .
next
  case (reach_step b c)
  with assms(1) show ?case by (auto simp: closed_above_def)
qed

lemma unchanged_below_take: "unchanged_below (length h) h h' \<Longrightarrow> take (length h) h' = h"
  by (simp add: unchanged_below_def)

text \<open>
  A template manifest in the store, at address 6: two scenes, the first with a media
  record and one text record, the second without a start time.
\<close>

definition template_store :: store where
  "template_store =
     [Obj [(''src'', HPrim (JStr ''01.webp''))],
      Obj [(''html'', HPrim (JStr ''caption'')), (''at'', HPrim (JNum (Fin 1)))],
      Arr [HRef 1],
      Obj [(''d'', HPrim (JNum (Fin 2))), (''media'', HRef 0), (''text'', HRef 2)],
      Obj [(''d'', HPrim (JNum (Fin 3)))],
      Arr [HRef 3, HRef 4],
      Obj [(''scenes'', HRef 5), (''theme'', HPrim (JStr ''dark''))]]"

text \<open>
  C9. Normalization leaves the caller's manifest as it was and returns an object that
  shares nothing with it. For the core's \<open>#normalizeManifest\<close> and for the loader's
  \<open>normalizeManifest\<close>, on every store and every manifest value, whether the run
  returns or throws: every cell that existed before the call (the manifest, its
  scenes, their media, text and callout records, and every other object) is unchanged
  afterwards, and every cell reachable from the returned manifest was created by the
  call. So a second schedule built from the same template starts from the same data
  and no write to one schedule is seen through the template or the other schedule.
\<close>

theorem normalizers_leave_original_store:
  "(core_normalize_store h v = (r, h') \<longrightarrow>
       take (length h) h' = h
       \<and> (\<forall>a b. r = Inr (HRef a) \<and> reach h' a b \<longrightarrow> length h \<le> b))
   \<and> (loader_normalize_store ext href h v = (r2, h2) \<longrightarrow>
       take (length h) h2 = h
       \<and> (\<forall>a b. r2 = Inr (HRef a) \<and> reach h2 a b \<longrightarrow> length h \<le> b))"
proof (intro conjI impI allI)
  assume run: "core_normalize_store h v = (r, h')"
  from core_normalize_store_props(1) [OF run] show "take (length h) h' = h"
    by (rule unchanged_below_take)
  fix a b
  assume "r = Inr (HRef a) \<and> reach h' a b"
  with core_normalize_store_props(2) [OF run] core_normalize_store_props(3) [OF run, of "HRef a"]
  show "length h \<le> b"
    by (auto intro: reach_above)
next
  assume run: "loader_normalize_store ext href h v = (r2, h2)"
  note p = loader_normalize_store_props [OF run]
  from p show "take (length h) h2 = h"
    by (simp add: store_ok_def unchanged_below_take)
  fix a b
  assume "r2 = Inr (HRef a) \<and> reach h2 a b"
  with p show "length h \<le> b"
    by (auto simp: store_ok_def intro: reach_above)
qed

theorem normalizers_leave_original_store_witness:
  "fst (core_normalize_store template_store (HRef 6)) = Inr (HRef 13)
   \<and> take 7 (snd (core_normalize_store template_store (HRef 6))) = template_store
   \<and> \<not> (\<exists>b<7. reach (snd (core_normalize_store template_store (HRef 6))) 13 b)
   \<and> fst (loader_normalize_store no_parse plain_href template_store (HRef 6)) = Inr (HRef 13)
   \<and> take 7 (snd (loader_normalize_store no_parse plain_href template_store (HRef 6)))
       = template_store
   \<and> \<not> (\<exists>b<7. reach (snd (loader_normalize_store no_parse plain_href template_store (HRef 6)))
               13 b)"
proof -
  let ?c = "core_normalize_store template_store (HRef 6)"
  let ?l = "loader_normalize_store no_parse plain_href template_store (HRef 6)"
  have len: "length template_store = 7"
    by (simp add: template_store_def)
  have rc: "fst ?c = Inr (HRef 13)"
    by code_simp
  have rl: "fst ?l = Inr (HRef 13)"
    by code_simp
  note frame = normalizers_leave_original_store
    [where h = template_store and v = "HRef 6" and r = "fst ?c" and h' = "snd ?c"
       and ext = no_parse and href = plain_href and ?r2.0 = "fst ?l" and ?h2.0 = "snd ?l",
     unfolded len]
  have "?c = (fst ?c, snd ?c)" and "?l = (fst ?l, snd ?l)"
    by simp_all
  with frame
  have c1: "take 7 (snd ?c) = template_store"
    and ca: "\<forall>a b. fst ?c = Inr (HRef a) \<and> reach (snd ?c) a b \<longrightarrow> 7 \<le> b"
    and l1: "take 7 (snd ?l) = template_store"
    and la: "\<forall>a b. fst ?l = Inr (HRef a) \<and> reach (snd ?l) a b \<longrightarrow> 7 \<le> b"
    by blast+
  have cr: "7 \<le> b" if "reach (snd ?c) 13 b" for b
    using ca rc that by blast
  have lr: "7 \<le> b" if "reach (snd ?l) 13 b" for b
    using la rl that by blast
  from cr have c2: "\<not> (\<exists>b<7. reach (snd ?c) 13 b)"
    by (auto simp: not_less)
  from lr have l2: "\<not> (\<exists>b<7. reach (snd ?l) 13 b)"
    by (auto simp: not_less)
  from rc c1 c2 rl l1 l2 show ?thesis
    by blast
qed

subsection \<open>The clone of JSON data\<close>

text \<open>
  A store is laid out children first when every cell refers to earlier cells only, as
  the cells of parsed JSON are. On such a store the copy never runs out of depth, so
  neither normalizer fails in its clone.
\<close>

definition children_first :: "store \<Rightarrow> bool" where
  "children_first h = (\<forall>a<length h. \<forall>r\<in>refs_of_cell (h ! a). r < a)"

lemma clone_succeeds:
  "children_first src \<Longrightarrow> (\<forall>r\<in>refs_of_val v. r < fuel \<and> r < length src)
     \<Longrightarrow> \<exists>y. clone_val fuel src v h = Some y"
  "children_first src \<Longrightarrow> (\<forall>v\<in>set vs. \<forall>r\<in>refs_of_val v. r < fuel \<and> r < length src)
     \<Longrightarrow> \<exists>y. clone_vals fuel src vs h = Some y"
proof (induction fuel src v h and fuel src vs h rule: clone_val_clone_vals.induct)
  case (1 fuel src p h)
  show ?case by simp
next
  case (2 src a h)
  then show ?case by simp
next
  case (3 fuel src a h)
  from "3.prems" have a: "a < length src" "a \<le> fuel" by simp_all
  then have lk: "lookup src a = Some (src ! a)" by (simp add: lookup_def)
  from "3.prems"(1) a have below: "\<forall>r\<in>refs_of_cell (src ! a). r < fuel \<and> r < length src"
    by (fastforce simp: children_first_def)
  show ?case
  proof (cases "src ! a")
    case (Obj fs)
    with below have "\<forall>v\<in>set (map snd fs). \<forall>r\<in>refs_of_val v. r < fuel \<and> r < length src"
      by auto
    from "3.IH"(1) [OF lk Obj "3.prems"(1) this] lk Obj
    show ?thesis by auto
  next
    case (Arr xs)
    with below have "\<forall>v\<in>set xs. \<forall>r\<in>refs_of_val v. r < fuel \<and> r < length src"
      by auto
    from "3.IH"(2) [OF lk Arr "3.prems"(1) this] lk Arr
    show ?thesis by auto
  qed
next
  case (4 fuel src h)
  show ?case by simp
next
  case (5 fuel src v vs h)
  from "5.prems" have pv: "\<forall>r\<in>refs_of_val v. r < fuel \<and> r < length src"
    and pvs: "\<forall>v\<in>set vs. \<forall>r\<in>refs_of_val v. r < fuel \<and> r < length src" by simp_all
  from "5.IH"(1) [OF "5.prems"(1) pv] obtain v' h' where c1: "clone_val fuel src v h = Some (v', h')"
    by auto
  from "5.IH"(2) [OF c1 refl "5.prems"(1) pvs] c1
  show ?case by auto
qed

lemma structuredClone_succeeds:
  assumes "children_first h" and "\<forall>r\<in>refs_of_val v. r < length h"
  shows "\<exists>y. structuredClone h v = Some y"
  unfolding structuredClone_def using assms by (intro clone_succeeds(1)) auto

lemma core_each_error:
  "core_each h cursor i xs = (Some e, h') \<Longrightarrow> e \<noteq> DataCloneError"
  by (induction h cursor i xs rule: core_each.induct)
     (auto split: hval.splits jsval.splits if_splits)

lemma loader_each_error:
  "loader_each ext href i h xs = (Inl e, h') \<Longrightarrow> e \<noteq> DataCloneError"
proof (induction xs arbitrary: i h)
  case Nil
  then show ?case by simp
next
  case (Cons s rest)
  obtain r1 h1 where one: "loader_scene_store ext href i h s = (r1, h1)"
    by (cases "loader_scene_store ext href i h s")
  show ?case
  proof (cases r1)
    case (Inl e1)
    with one have "e1 = RequiresPositiveDuration i"
      by (auto simp: loader_scene_store_def Let_def split: prod.splits if_splits)
    with Cons.prems one Inl show ?thesis by auto
  next
    case (Inr v)
    with Cons.prems one Cons.IH [of "Suc i" h1] show ?thesis
      by (auto split: prod.splits sum.splits)
  qed
qed

lemma normalizers_clone_json_data:
  assumes "children_first h" and "\<forall>r\<in>refs_of_val v. r < length h"
  shows "fst (core_normalize_store h v) \<noteq> Inl DataCloneError"
    and "fst (loader_normalize_store ext href h v) \<noteq> Inl DataCloneError"
proof -
  from structuredClone_succeeds [OF assms] obtain m h1 where cl: "structuredClone h v = Some (m, h1)"
    by auto
  show "fst (core_normalize_store h v) \<noteq> Inl DataCloneError"
    using cl core_each_error
    by (auto simp: core_normalize_store_def split: option.splits prod.splits)
  show "fst (loader_normalize_store ext href h v) \<noteq> Inl DataCloneError"
    using cl loader_each_error
    by (auto simp: loader_normalize_store_def split: hval.splits option.splits prod.splits sum.splits)
qed

end
